theory Spec2Isabelle
  imports Complex_Main "HOL-Library.Multiset"
begin

section \<open>Numbers and the remainder operator\<close>

text \<open>
  The engine computes on JavaScript numbers. They are modelled as exact reals: the
  comparisons, \<open>Math.floor\<close>, \<open>Math.ceil\<close>, \<open>Math.min\<close>, \<open>Math.max\<close> and
  the remainder operator \<open>%\<close> are exact operations on the values they receive, and
  \<open>NaN\<close> and the infinities are left out. The interpolator of the preview is modelled
  with the rounding of doubles written out: every difference, product and sum of its step
  is rounded to the nearest double, see \<open>roundDouble\<close> and \<open>lerp\<close>.
\<close>

definition trunc :: "real \<Rightarrow> int" where
  "trunc a = (if 0 \<le> a then \<lfloor>a\<rfloor> else - \<lfloor>- a\<rfloor>)"

text \<open>
  \<open>a % b\<close>: the remainder of the division truncated towards zero, with the sign of the
  dividend. Every divisor in the engine is a positive constant or a positive raster
  dimension (the tile loops run only when width and height are positive), so the
  \<open>NaN\<close> of a zero divisor does not arise.
\<close>

definition jsmod :: "real \<Rightarrow> real \<Rightarrow> real" where
  "jsmod a b = a - b * of_int (trunc (a / b))"

text \<open>
  The remainder of the floored division, which lies in \<open>[0, b)\<close> for positive \<open>b\<close>: the
  position on a ring of circumference \<open>b\<close>. It is used to state what the wraparound
  computes; the engine itself only uses \<open>%\<close>.
\<close>

definition floorMod :: "real \<Rightarrow> real \<Rightarrow> real" where
  "floorMod a b = a - b * of_int \<lfloor>a / b\<rfloor>"

section \<open>Configuration\<close>

datatype WeavePattern = Plain | Twill | Satin | Basket

record ProcessorSettings =
  tileSize :: real
  horizontalShift :: real
  verticalShift :: real
  scatterIntensity :: real
  pattern :: WeavePattern
  opacity :: real
  seed :: real

section \<open>The weave engine\<close>

text \<open>
  \<open>pseudoRandom\<close>: \<open>v = Math.sin(x * 12.9898 + y * 78.233 + seed) * 43758.5453\<close>, and
  the result is \<open>v - Math.floor(v)\<close>.
\<close>

definition pseudoRandom :: "real \<Rightarrow> real \<Rightarrow> real \<Rightarrow> real" where
  "pseudoRandom x y sd =
     (let v = sin (x * 12.9898 + y * 78.233 + sd) * 43758.5453
      in v - of_int \<lfloor>v\<rfloor>)"

text \<open>
  \<open>getShiftFactors\<close>: one case of the \<open>switch\<close> for each of the four patterns. The
  initial values \<open>xFactor = 1\<close>, \<open>yFactor = 1\<close> are overwritten in every case, since the
  type \<open>WeavePattern\<close> has no other value.
\<close>

record ShiftFactors =
  xFactor :: real
  yFactor :: real

fun getShiftFactors :: "real \<Rightarrow> real \<Rightarrow> WeavePattern \<Rightarrow> ShiftFactors" where
  "getShiftFactors xIndex yIndex Plain =
     \<lparr>xFactor = (if jsmod yIndex 2 = 0 then 1 else -1),
      yFactor = (if jsmod xIndex 2 = 0 then 1 else -1)\<rparr>"
| "getShiftFactors xIndex yIndex Twill =
     \<lparr>xFactor = (jsmod yIndex 4 - 1.5) * 1.5,
      yFactor = (jsmod xIndex 4 - 1.5) * 1.5\<rparr>"
| "getShiftFactors xIndex yIndex Satin =
     \<lparr>xFactor = jsmod (yIndex * 3) 5 - 2,
      yFactor = jsmod (xIndex * 3) 5 - 2\<rparr>"
| "getShiftFactors xIndex yIndex Basket =
     \<lparr>xFactor = (if jsmod (of_int \<lfloor>yIndex / 2\<rfloor>) 2 = 0 then 1 else -1),
      yFactor = (if jsmod (of_int \<lfloor>xIndex / 2\<rfloor>) 2 = 0 then 1 else -1)\<rparr>"

text \<open>
  \<open>const tileSize = Math.max(2, settings.tileSize)\<close>: the edge length the engine works
  with, called \<open>tileSize\<close> in the body of \<open>renderWeave\<close>.
\<close>

definition engineTileSize :: "ProcessorSettings \<Rightarrow> real" where
  "engineTileSize s = max 2 (tileSize s)"

definition rows :: "nat \<Rightarrow> ProcessorSettings \<Rightarrow> int" where
  "rows H s = \<lceil>real H / engineTileSize s\<rceil>"

definition cols :: "nat \<Rightarrow> ProcessorSettings \<Rightarrow> int" where
  "cols W s = \<lceil>real W / engineTileSize s\<rceil>"

text \<open>
  The two nested loops \<open>for y < rows\<close>, \<open>for x < cols\<close>: the tile indices \<open>(x, y)\<close>
  in the order the engine visits them.
\<close>

definition tiles :: "nat \<Rightarrow> nat \<Rightarrow> ProcessorSettings \<Rightarrow> (nat \<times> nat) list" where
  "tiles W H s =
     concat (map (\<lambda>y. map (\<lambda>x. (x, y)) [0 ..< nat (cols W s)]) [0 ..< nat (rows H s)])"

definition srcX :: "ProcessorSettings \<Rightarrow> nat \<Rightarrow> real" where
  "srcX s x = real x * engineTileSize s"

definition srcY :: "ProcessorSettings \<Rightarrow> nat \<Rightarrow> real" where
  "srcY s y = real y * engineTileSize s"

definition tileW :: "nat \<Rightarrow> ProcessorSettings \<Rightarrow> nat \<Rightarrow> real" where
  "tileW W s x = min (engineTileSize s) (real W - srcX s x)"

definition tileH :: "nat \<Rightarrow> ProcessorSettings \<Rightarrow> nat \<Rightarrow> real" where
  "tileH H s y = min (engineTileSize s) (real H - srcY s y)"

text \<open>Step 1 of the loop body: the shifted and wrapped origin \<open>(destX, destY)\<close>.\<close>

definition tileFactors :: "ProcessorSettings \<Rightarrow> nat \<Rightarrow> nat \<Rightarrow> ShiftFactors" where
  "tileFactors s x y = getShiftFactors (real x) (real y) (pattern s)"

definition destOrigin :: "nat \<Rightarrow> nat \<Rightarrow> ProcessorSettings \<Rightarrow> nat \<Rightarrow> nat \<Rightarrow> real \<times> real" where
  "destOrigin W H s x y =
     (let f = tileFactors s x y;
          shiftX = horizontalShift s * xFactor f;
          shiftY = verticalShift s * yFactor f;
          destX = srcX s x + shiftX;
          destY = srcY s y + shiftY
      in (jsmod (jsmod destX (real W) + real W) (real W),
          jsmod (jsmod destY (real H) + real H) (real H)))"

text \<open>Step 2 of the loop body: the scatter decision and \<open>(finalDestX, finalDestY)\<close>.\<close>

definition finalDest :: "nat \<Rightarrow> nat \<Rightarrow> ProcessorSettings \<Rightarrow> nat \<Rightarrow> nat \<Rightarrow> real \<times> real" where
  "finalDest W H s x y =
     (let (destX, destY) = destOrigin W H s x y;
          hash = pseudoRandom (real x) (real y) (seed s);
          threshold = scatterIntensity s / 100
      in if hash < threshold
         then (if jsmod (hash * 10) 2 < 1
               then (jsmod (destX + engineTileSize s) (real W), destY)
               else (destX, jsmod (destY + engineTileSize s) (real H)))
         else (destX, destY))"

text \<open>
  One call \<open>ctx.drawImage(tempCanvas, sx, sy, w, h, dx, dy, w, h)\<close>. The engine always
  passes the source extent as the destination extent, so a call is its source rectangle
  and its destination origin.
\<close>

record DrawCall =
  src_x :: real
  src_y :: real
  ext_w :: real
  ext_h :: real
  dst_x :: real
  dst_y :: real

definition drawWrapped ::
  "nat \<Rightarrow> nat \<Rightarrow> real \<Rightarrow> real \<Rightarrow> real \<Rightarrow> real \<Rightarrow> real \<Rightarrow> real \<Rightarrow> DrawCall list" where
  "drawWrapped W H sx sy w h dx dy =
     (if dx + w \<le> real W \<and> dy + h \<le> real H
      then [\<lparr>src_x = sx, src_y = sy, ext_w = w, ext_h = h, dst_x = dx, dst_y = dy\<rparr>]
      else map (\<lambda>(px, py). \<lparr>src_x = sx, src_y = sy, ext_w = w, ext_h = h, dst_x = px, dst_y = py\<rparr>)
             (filter (\<lambda>(px, py). px + w > 0 \<and> px < real W \<and> py + h > 0 \<and> py < real H)
                [(dx, dy), (dx - real W, dy), (dx, dy - real H), (dx - real W, dy - real H)]))"

definition tileDraws :: "nat \<Rightarrow> nat \<Rightarrow> ProcessorSettings \<Rightarrow> nat \<Rightarrow> nat \<Rightarrow> DrawCall list" where
  "tileDraws W H s x y =
     (let (finalDestX, finalDestY) = finalDest W H s x y
      in drawWrapped W H (srcX s x) (srcY s y) (tileW W s x) (tileH H s y) finalDestX finalDestY)"

text \<open>All tile draws of one frame, in the order the loops issue them.\<close>

definition weaveDraws :: "nat \<Rightarrow> nat \<Rightarrow> ProcessorSettings \<Rightarrow> DrawCall list" where
  "weaveDraws W H s = concat (map (\<lambda>(x, y). tileDraws W H s x y) (tiles W H s))"

section \<open>What a draw call paints\<close>

text \<open>
  \<open>drawImage\<close> with equal source and destination extent copies without scaling: the
  call paints the points of its destination rectangle that lie on the raster
  \<open>[0, width) \<times> [0, height)\<close>, the rest is clipped, and the point \<open>(u, v)\<close> shows the
  source point \<open>srcPoint d (u, v)\<close>.
\<close>

definition paints :: "nat \<Rightarrow> nat \<Rightarrow> DrawCall \<Rightarrow> real \<times> real \<Rightarrow> bool" where
  "paints W H d p =
     (case p of (u, v) \<Rightarrow>
        0 \<le> u \<and> u < real W \<and> 0 \<le> v \<and> v < real H
        \<and> dst_x d \<le> u \<and> u < dst_x d + ext_w d
        \<and> dst_y d \<le> v \<and> v < dst_y d + ext_h d)"

definition srcPoint :: "DrawCall \<Rightarrow> real \<times> real \<Rightarrow> real \<times> real" where
  "srcPoint d p = (case p of (u, v) \<Rightarrow> (src_x d + (u - dst_x d), src_y d + (v - dst_y d)))"

section \<open>Rasters and the render operation\<close>

text \<open>
  The source image and the two canvases of \<open>renderWeave\<close>: the destination
  \<open>ctx.canvas\<close> and the scratch \<open>tempCanvas\<close>. A raster has a width, a height and a
  pixel at every whole position; a canvas pixel is \<open>None\<close> while it is cleared. Pixel
  values are opaque, and a draw copies them. The flag \<open>context2d\<close> of a canvas says
  that \<open>getContext('2d')\<close> yields a context for it (it is read for the scratch canvas
  only; the destination comes with its context).
\<close>

record 'p image =
  iwidth :: nat
  iheight :: nat
  ipixels :: "int \<times> int \<Rightarrow> 'p"

record 'p canvas =
  cwidth :: nat
  cheight :: nat
  cpixels :: "int \<times> int \<Rightarrow> 'p option"
  context2d :: bool

definition onCanvas :: "'p canvas \<Rightarrow> int \<times> int \<Rightarrow> bool" where
  "onCanvas c p = (case p of (u, v) \<Rightarrow> 0 \<le> u \<and> u < int (cwidth c) \<and> 0 \<le> v \<and> v < int (cheight c))"

text \<open>Reading a canvas: outside its bitmap there is nothing.\<close>

definition pixelAt :: "'p canvas \<Rightarrow> int \<times> int \<Rightarrow> 'p option" where
  "pixelAt c p = (if onCanvas c p then cpixels c p else None)"

text \<open>Assigning \<open>canvas.width\<close> or \<open>canvas.height\<close> resets the bitmap.\<close>

definition setWidth :: "'p canvas \<Rightarrow> nat \<Rightarrow> 'p canvas" where
  "setWidth c W = c\<lparr>cwidth := W, cpixels := (\<lambda>p. None)\<rparr>"

definition setHeight :: "'p canvas \<Rightarrow> nat \<Rightarrow> 'p canvas" where
  "setHeight c H = c\<lparr>cheight := H, cpixels := (\<lambda>p. None)\<rparr>"

text \<open>\<open>clearRect(0, 0, width, height)\<close>.\<close>

definition clearRect :: "'p canvas \<Rightarrow> nat \<Rightarrow> nat \<Rightarrow> 'p canvas" where
  "clearRect c W H =
     c\<lparr>cpixels := (\<lambda>(u, v). if 0 \<le> u \<and> u < int W \<and> 0 \<le> v \<and> v < int H then None
                            else cpixels c (u, v))\<rparr>"

text \<open>\<open>drawImage(img, 0, 0)\<close>: the image at the origin, clipped to the canvas.\<close>

definition drawImage3 :: "'p canvas \<Rightarrow> 'p image \<Rightarrow> 'p canvas" where
  "drawImage3 c img =
     c\<lparr>cpixels := (\<lambda>(u, v). if onCanvas c (u, v) \<and> u < int (iwidth img) \<and> v < int (iheight img)
                            then Some (ipixels img (u, v)) else cpixels c (u, v))\<rparr>"

text \<open>
  \<open>drawImage(tempCanvas, sx, sy, w, h, dx, dy, w, h)\<close> on pixels. A call whose
  rectangles lie on whole positions copies pixel by pixel; a cleared source pixel leaves
  the destination as it is. A call off the pixel grid is resampled by the canvas, which
  is not described here: the result is \<open>None\<close>.
\<close>

definition isWhole :: "real \<Rightarrow> bool" where
  "isWhole r = (of_int \<lfloor>r\<rfloor> = r)"

definition aligned :: "DrawCall \<Rightarrow> bool" where
  "aligned d = (isWhole (src_x d) \<and> isWhole (src_y d) \<and> isWhole (ext_w d) \<and> isWhole (ext_h d)
               \<and> isWhole (dst_x d) \<and> isWhole (dst_y d))"

definition srcPixel :: "DrawCall \<Rightarrow> int \<times> int \<Rightarrow> int \<times> int" where
  "srcPixel d p = (case p of (u, v) \<Rightarrow>
     (\<lfloor>src_x d\<rfloor> + (u - \<lfloor>dst_x d\<rfloor>), \<lfloor>src_y d\<rfloor> + (v - \<lfloor>dst_y d\<rfloor>)))"

definition drawImage9 :: "'p canvas \<Rightarrow> 'p canvas \<Rightarrow> DrawCall \<Rightarrow> 'p canvas option" where
  "drawImage9 c src d =
     (if aligned d
      then Some (c\<lparr>cpixels := (\<lambda>(u, v).
             if paints (cwidth c) (cheight c) d (real_of_int u, real_of_int v)
             then (case pixelAt src (srcPixel d (u, v)) of
                     Some q \<Rightarrow> Some q
                   | None \<Rightarrow> cpixels c (u, v))
             else cpixels c (u, v))\<rparr>)
      else None)"

fun paintAll :: "'p canvas \<Rightarrow> 'p canvas \<Rightarrow> DrawCall list \<Rightarrow> 'p canvas option" where
  "paintAll c src [] = Some c"
| "paintAll c src (d # ds) =
     (case drawImage9 c src d of
        None \<Rightarrow> None
      | Some c' \<Rightarrow> paintAll c' src ds)"

text \<open>
  \<open>renderWeave(ctx, img, settings, tempCanvas)\<close>, returning the two canvases as it
  leaves them. The destination and the scratch canvas are two canvases, as in the
  preview, which creates the scratch canvas itself.
\<close>

definition fastPath :: "ProcessorSettings \<Rightarrow> bool" where
  "fastPath s = (\<bar>horizontalShift s\<bar> < 0.5 \<and> \<bar>verticalShift s\<bar> < 0.5 \<and> scatterIntensity s < 0.5)"

text \<open>
  \<open>if (canvas.width !== width) canvas.width = width;\<close> and the same for the height, as
  done for both canvases.
\<close>

definition resizeTo :: "'p canvas \<Rightarrow> nat \<Rightarrow> nat \<Rightarrow> 'p canvas" where
  "resizeTo c W H =
     (let c1 = (if cwidth c \<noteq> W then setWidth c W else c)
      in if cheight c1 \<noteq> H then setHeight c1 H else c1)"

definition renderWeave ::
  "'p canvas \<Rightarrow> 'p image \<Rightarrow> ProcessorSettings \<Rightarrow> 'p canvas \<Rightarrow> ('p canvas \<times> 'p canvas) option" where
  "renderWeave ctx img s tempCanvas =
     (let W = iwidth img; H = iheight img;
          c2 = resizeTo ctx W H;
          t2 = resizeTo tempCanvas W H
      in if \<not> context2d t2 then Some (c2, t2)
         else
           let t3 = drawImage3 (clearRect t2 W H) img;
               c3 = clearRect c2 W H
           in if fastPath s then Some (drawImage3 c3 img, t3)
              else (case paintAll c3 t3 (weaveDraws W H s) of
                      None \<Rightarrow> None
                    | Some c4 \<Rightarrow> Some (c4, t3)))"

text \<open>What a canvas shows: its size and its pixels on the bitmap.\<close>

definition shown :: "'p canvas \<Rightarrow> nat \<times> nat \<times> (int \<times> int \<Rightarrow> 'p option)" where
  "shown c = (cwidth c, cheight c, pixelAt c)"

text \<open>
  The tiles whose composite paints a point of the raster, in drawing order, and the
  whole positions of a raster.
\<close>

definition writers :: "nat \<Rightarrow> nat \<Rightarrow> ProcessorSettings \<Rightarrow> real \<times> real \<Rightarrow> (nat \<times> nat) list" where
  "writers W H s p =
     filter (\<lambda>(x, y). list_ex (\<lambda>d. paints W H d p) (tileDraws W H s x y)) (tiles W H s)"

definition positions :: "nat \<Rightarrow> nat \<Rightarrow> (int \<times> int) set" where
  "positions W H = {0 ..< int W} \<times> {0 ..< int H}"

text \<open>What a canvas shows when it holds exactly the image.\<close>

definition shownImage :: "'p image \<Rightarrow> nat \<times> nat \<times> (int \<times> int \<Rightarrow> 'p option)" where
  "shownImage img =
     (iwidth img, iheight img,
      (\<lambda>p. if p \<in> positions (iwidth img) (iheight img) then Some (ipixels img p) else None))"

text \<open>
  The pixel the destination canvas shows at a position after a render: \<open>None\<close> when the
  render is off the pixel grid, \<open>Some None\<close> when the position is left cleared.
\<close>

definition renderedPixel ::
  "'p canvas \<Rightarrow> 'p image \<Rightarrow> ProcessorSettings \<Rightarrow> 'p canvas \<Rightarrow> int \<times> int \<Rightarrow> 'p option option" where
  "renderedPixel ctx img s tempCanvas p =
     map_option (\<lambda>r. pixelAt (fst r) p) (renderWeave ctx img s tempCanvas)"

section \<open>Rearrangement by a shift along one axis\<close>

text \<open>
  The source position shown at a destination position when only the horizontal shift
  acts (every row of tiles slides along the ring of its row), and when only the vertical
  shift acts.
\<close>

definition rowSlide :: "nat \<Rightarrow> ProcessorSettings \<Rightarrow> int \<times> int \<Rightarrow> int \<times> int" where
  "rowSlide W s p = (case p of (u, v) \<Rightarrow>
     (\<lfloor>floorMod (real_of_int u
         - horizontalShift s * xFactor (tileFactors s 0 (nat \<lfloor>real_of_int v / engineTileSize s\<rfloor>)))
        (real W)\<rfloor>, v))"

definition columnSlide :: "nat \<Rightarrow> ProcessorSettings \<Rightarrow> int \<times> int \<Rightarrow> int \<times> int" where
  "columnSlide H s p = (case p of (u, v) \<Rightarrow>
     (u, \<lfloor>floorMod (real_of_int v
         - verticalShift s * yFactor (tileFactors s (nat \<lfloor>real_of_int u / engineTileSize s\<rfloor>) 0))
        (real H)\<rfloor>))"

section \<open>The numbers of the interpolator\<close>

text \<open>
  JavaScript numbers are IEEE 754 doubles: a literal denotes the nearest double, and each
  of \<open>+\<close>, \<open>-\<close>, \<open>*\<close> yields the exact result rounded to the nearest double, ties to the
  even significand. A double is a whole multiple of \<open>2 ^ (e - 52)\<close>, where \<open>e\<close> is the
  binade of the value and at least \<open>-1022\<close>. Overflow to infinity (beyond \<open>2 ^ 1024\<close>)
  is left out.
\<close>

definition pow2 :: "int \<Rightarrow> real" where
  "pow2 e = (if 0 \<le> e then 2 ^ nat e else 1 / 2 ^ nat (- e))"

definition roundEven :: "real \<Rightarrow> int" where
  "roundEven x =
     (let f = \<lfloor>x\<rfloor>; r = x - of_int f
      in if r < 1 / 2 then f else if 1 / 2 < r then f + 1 else if even f then f else f + 1)"

definition binade :: "real \<Rightarrow> int" where
  "binade x = \<lfloor>log 2 \<bar>x\<bar>\<rfloor>"

definition roundDouble :: "real \<Rightarrow> real" where
  "roundDouble x =
     (if x = 0 then 0
      else let e = max (binade x) (- 1022) - 52
           in of_int (roundEven (x / pow2 e)) * pow2 e)"

text \<open>
  The doubles as a set of reals: the whole multiples of a power of two, with a significand
  of at most 53 bits and an exponent of at least \<open>-1074\<close>. They are the values that
  \<open>roundDouble\<close> returns, and the values it leaves as they are.
\<close>

definition doubles :: "real set" where
  "doubles = {x. \<exists>m e. x = of_int m * pow2 e \<and> \<bar>m\<bar> \<le> 2 ^ 53 \<and> - 1074 \<le> e}"

section \<open>The parameter interpolator\<close>

text \<open>
  The frame callback of the preview moves the current settings towards the target with
  \<open>lerp = (a, b) => a + (b - a) * t\<close>, \<open>t = 0.1\<close>, and switches pattern and seed at
  once. The literal \<open>0.1\<close> is the double nearest to one tenth, and the difference, the
  product and the sum are each rounded to a double. The current settings are an object of
  their own (a copy made when the component is created and when an image is loaded), never
  the target object itself.
\<close>

definition lerp_t :: real where
  "lerp_t = roundDouble 0.1"

definition lerp :: "real \<Rightarrow> real \<Rightarrow> real" where
  "lerp a b = roundDouble (a + roundDouble (roundDouble (b - a) * lerp_t))"

definition interpolatorStep :: "ProcessorSettings \<Rightarrow> ProcessorSettings \<Rightarrow> ProcessorSettings" where
  "interpolatorStep current target =
     current\<lparr>horizontalShift := lerp (horizontalShift current) (horizontalShift target),
             verticalShift := lerp (verticalShift current) (verticalShift target),
             scatterIntensity := lerp (scatterIntensity current) (scatterIntensity target),
             tileSize := lerp (tileSize current) (tileSize target),
             pattern := pattern target,
             seed := seed target\<rparr>"

text \<open>
  When an image has loaded the preview restarts from the target with the three effect
  strengths at zero, to animate the entrance.
\<close>

definition zeroed :: "ProcessorSettings \<Rightarrow> ProcessorSettings" where
  "zeroed settings = settings\<lparr>horizontalShift := 0, verticalShift := 0, scatterIntensity := 0\<rparr>"

text \<open>
  The frames of one animation: \<open>n\<close> steps towards a target that stays the same, and the
  four fields that are interpolated.
\<close>

fun interpolate :: "nat \<Rightarrow> ProcessorSettings \<Rightarrow> ProcessorSettings \<Rightarrow> ProcessorSettings" where
  "interpolate 0 current target = current"
| "interpolate (Suc n) current target = interpolate n (interpolatorStep current target) target"

definition numericFields :: "(ProcessorSettings \<Rightarrow> real) list" where
  "numericFields = [horizontalShift, verticalShift, scatterIntensity, tileSize]"

text \<open>
  The settings the interpolator works on: each of the four interpolated fields holds a
  double, of a magnitude of at most \<open>2 ^ 1022\<close>. The difference of two such values is
  below \<open>2 ^ 1024\<close>, so no operation of a step overflows. (The controls of the
  application give shifts from 0 to 200, a scatter intensity from 0 to 100 and tile sizes
  of at most the size of the image.)
\<close>

definition representable :: "ProcessorSettings \<Rightarrow> bool" where
  "representable settings =
     list_all (\<lambda>f. roundDouble (f settings) = f settings \<and> \<bar>f settings\<bar> \<le> 2 ^ 1022) numericFields"

section \<open>The shift-factor table of the specification\<close>

text \<open>
  The table of the specification, written as it stands there, over tile indices
  \<open>(col, row)\<close> and with the remainder and quotient of natural numbers.
\<close>

definition table_xFactor :: "WeavePattern \<Rightarrow> nat \<Rightarrow> nat \<Rightarrow> real" where
  "table_xFactor p col row =
     (case p of
        Plain \<Rightarrow> if row mod 2 = 0 then 1 else -1
      | Twill \<Rightarrow> (real (row mod 4) - 1.5) * 1.5
      | Satin \<Rightarrow> real ((row * 3) mod 5) - 2
      | Basket \<Rightarrow> if (row div 2) mod 2 = 0 then 1 else -1)"

definition table_yFactor :: "WeavePattern \<Rightarrow> nat \<Rightarrow> nat \<Rightarrow> real" where
  "table_yFactor p col row =
     (case p of
        Plain \<Rightarrow> if col mod 2 = 0 then 1 else -1
      | Twill \<Rightarrow> (real (col mod 4) - 1.5) * 1.5
      | Satin \<Rightarrow> real ((col * 3) mod 5) - 2
      | Basket \<Rightarrow> if (col div 2) mod 2 = 0 then 1 else -1)"

section \<open>Sample configurations\<close>

text \<open>
  The scenario of the specification: a 100 by 100 raster cut into a 2 by 2 grid, with and
  without scatter.
\<close>

definition scenario :: ProcessorSettings where
  "scenario = \<lparr>tileSize = 50, horizontalShift = 50, verticalShift = 0, scatterIntensity = 0,
               pattern = Plain, opacity = 100, seed = 0\<rparr>"

definition scenario100 :: ProcessorSettings where
  "scenario100 = \<lparr>tileSize = 50, horizontalShift = 50, verticalShift = 0, scatterIntensity = 100,
               pattern = Plain, opacity = 100, seed = 0\<rparr>"

text \<open>The same raster with a horizontal shift of 30, which carries tiles across the right edge.\<close>

definition scenario30 :: ProcessorSettings where
  "scenario30 = \<lparr>tileSize = 50, horizontalShift = 30, verticalShift = 0, scatterIntensity = 0,
               pattern = Plain, opacity = 100, seed = 0\<rparr>"

text \<open>A configuration with both shifts below one half and no scatter.\<close>

definition faint :: ProcessorSettings where
  "faint = \<lparr>tileSize = 2, horizontalShift = 0.25, verticalShift = -0.25, scatterIntensity = 0.25,
            pattern = Twill, opacity = 100, seed = 3\<rparr>"

text \<open>
  A 4 by 4 raster cut into a 2 by 2 grid, shifted by one pixel along both axes, and by one
  pixel along the horizontal axis only.
\<close>

definition weave11 :: ProcessorSettings where
  "weave11 = \<lparr>tileSize = 2, horizontalShift = 1, verticalShift = 1, scatterIntensity = 0,
             pattern = Plain, opacity = 100, seed = 0\<rparr>"

definition weave10 :: ProcessorSettings where
  "weave10 = \<lparr>tileSize = 2, horizontalShift = 1, verticalShift = 0, scatterIntensity = 0,
             pattern = Plain, opacity = 100, seed = 0\<rparr>"

text \<open>
  The scenario with its horizontal shift four units in the last place below the target
  shift 50, at \<open>50 - 2^(-45)\<close>.
\<close>

definition nearly :: ProcessorSettings where
  "nearly = scenario\<lparr>horizontalShift := 50 - 1 / 2 ^ 45\<rparr>"

section \<open>Sample rasters\<close>

text \<open>
  A blank canvas of size 0 by 0, a stale canvas that still holds other content, and a
  4 by 4 image whose pixel at \<open>(u, v)\<close> is the number \<open>u + 4 * v\<close>.
\<close>

definition blankCanvas :: "int canvas" where
  "blankCanvas = \<lparr>cwidth = 0, cheight = 0, cpixels = (\<lambda>p. None), context2d = True\<rparr>"

definition staleCanvas :: "int canvas" where
  "staleCanvas = \<lparr>cwidth = 4, cheight = 4, cpixels = (\<lambda>p. Some 7), context2d = True\<rparr>"

definition numbered4 :: "int image" where
  "numbered4 = \<lparr>iwidth = 4, iheight = 4, ipixels = (\<lambda>(u, v). u + 4 * v)\<rparr>"


section \<open>Arithmetic of the remainder\<close>

lemma trunc_of_nat_div: "trunc (real n / real k) = int (n div k)"
  unfolding trunc_def by (simp add: floor_divide_of_nat_eq)

lemma jsmod_nat: "jsmod (real n) (real k) = real (n mod k)"
  unfolding jsmod_def trunc_of_nat_div
  by (metis of_int_of_nat_eq of_nat_mult mult.commute div_mult_mod_eq add_diff_cancel_left' of_nat_add)

lemma floor_mod_range:
  fixes a b :: real
  assumes "0 < b"
  shows "0 \<le> a - b * of_int \<lfloor>a / b\<rfloor>" and "a - b * of_int \<lfloor>a / b\<rfloor> < b"
proof -
  have "of_int \<lfloor>a / b\<rfloor> \<le> a / b" by simp
  then have "of_int \<lfloor>a / b\<rfloor> * b \<le> a" using assms by (simp only: pos_le_divide_eq)
  then show "0 \<le> a - b * of_int \<lfloor>a / b\<rfloor>" by (simp add: mult.commute)
  have "a / b < of_int \<lfloor>a / b\<rfloor> + 1" by linarith
  then have "a < (of_int \<lfloor>a / b\<rfloor> + 1) * b" using assms by (simp only: pos_divide_less_eq)
  then show "a - b * of_int \<lfloor>a / b\<rfloor> < b" by (simp add: algebra_simps)
qed

lemma jsmod_small:
  assumes "0 \<le> a" "a < b"
  shows "jsmod a b = a"
proof -
  have "0 \<le> a / b" "a / b < 1" using assms by simp_all
  then have "\<lfloor>a / b\<rfloor> = 0" by linarith
  then show ?thesis using \<open>0 \<le> a / b\<close> by (simp add: jsmod_def trunc_def)
qed

lemma jsmod_shift1:
  assumes "b \<le> a" "a < 2 * b" "0 < b"
  shows "jsmod a b = a - b"
proof -
  have "1 \<le> a / b" "a / b < 2" using assms by (simp_all add: pos_le_divide_eq pos_divide_less_eq)
  then have "\<lfloor>a / b\<rfloor> = 1" by linarith
  then show ?thesis using \<open>1 \<le> a / b\<close> by (simp add: jsmod_def trunc_def)
qed

lemma jsmod_range:
  assumes "0 < b" "0 \<le> a"
  shows "0 \<le> jsmod a b" "jsmod a b < b"
  using assms floor_mod_range[of b a] by (simp_all add: jsmod_def trunc_def)

text \<open>
  The double remainder \<open>((a % b) + b) % b\<close> is the remainder of the floored division:
  it is \<open>a\<close> minus a whole multiple of \<open>b\<close>, for negative \<open>a\<close> too.
\<close>

lemma wrap_floor:
  assumes "0 < b"
  shows "jsmod (jsmod a b + b) b = a - b * of_int \<lfloor>a / b\<rfloor>"
proof (cases "0 \<le> a / b")
  case True
  then have r: "jsmod a b = a - b * of_int \<lfloor>a / b\<rfloor>" by (simp add: jsmod_def trunc_def)
  show ?thesis using floor_mod_range[OF assms, of a] assms unfolding r
    by (subst jsmod_shift1) simp_all
next
  case False
  then have r: "jsmod a b = a + b * of_int \<lfloor>- (a / b)\<rfloor>" by (simp add: jsmod_def trunc_def)
  show ?thesis
  proof (cases "a / b \<in> \<int>")
    case True
    then obtain k :: int where k: "a / b = of_int k" by (auto elim: Ints_cases)
    then have a: "a = b * of_int k" using assms by (simp add: field_simps)
    have "\<lfloor>- (a / b)\<rfloor> = - k" unfolding k by (metis floor_of_int of_int_minus)
    then have "jsmod a b = 0" unfolding r using a by simp
    moreover have "jsmod b b = 0" using assms by (simp add: jsmod_def trunc_def)
    moreover have "a - b * of_int \<lfloor>a / b\<rfloor> = 0" unfolding k using a by simp
    ultimately show ?thesis by simp
  next
    case nint: False
    have fl: "\<lfloor>- (a / b)\<rfloor> = - \<lfloor>a / b\<rfloor> - 1"
    proof -
      have "a / b \<noteq> of_int \<lfloor>a / b\<rfloor>" using nint by (metis Ints_of_int)
      then have "\<lceil>a / b\<rceil> = \<lfloor>a / b\<rfloor> + 1" by (simp add: ceiling_altdef)
      then show ?thesis by (simp add: ceiling_def)
    qed
    have "jsmod a b + b = a - b * of_int \<lfloor>a / b\<rfloor>" unfolding r fl by (simp add: algebra_simps)
    then show ?thesis using floor_mod_range[OF assms, of a] by (simp add: jsmod_small)
  qed
qed

section \<open>The tile grid\<close>

lemma engineTileSize_ge2: "2 \<le> engineTileSize s"
  by (simp add: engineTileSize_def)

lemma tiles_mem: "(x, y) \<in> set (tiles W H s) \<longleftrightarrow> int x < cols W s \<and> int y < rows H s"
proof -
  have "(x, y) \<in> set (tiles W H s) \<longleftrightarrow> x < nat (cols W s) \<and> y < nat (rows H s)"
    unfolding tiles_def by (auto simp: image_iff)
  then show ?thesis by (simp add: zless_nat_eq_int_zless)
qed

lemma srcX_less_width:
  assumes "int x < cols W s"
  shows "srcX s x < real W"
proof -
  have "real x < real W / engineTileSize s"
    using assms unfolding cols_def by (simp add: less_ceiling_iff)
  then show ?thesis
    using engineTileSize_ge2[of s] unfolding srcX_def by (simp add: pos_less_divide_eq)
qed

lemma srcX_nonneg: "0 \<le> srcX s x"
  using engineTileSize_ge2[of s] unfolding srcX_def by simp

lemma cols_pos_width: "int x < cols W s \<Longrightarrow> 0 < W"
  using srcX_less_width[of x W s] srcX_nonneg[of s x] by (cases W) auto

lemma srcY_less_height:
  assumes "int y < rows H s"
  shows "srcY s y < real H"
proof -
  have "real y < real H / engineTileSize s"
    using assms unfolding rows_def by (simp add: less_ceiling_iff)
  then show ?thesis
    using engineTileSize_ge2[of s] unfolding srcY_def by (simp add: pos_less_divide_eq)
qed

lemma srcY_nonneg: "0 \<le> srcY s y"
  using engineTileSize_ge2[of s] unfolding srcY_def by simp

lemma rows_pos_height: "int y < rows H s \<Longrightarrow> 0 < H"
  using srcY_less_height[of y H s] srcY_nonneg[of s y] by (cases H) auto

lemma pseudoRandom_range: "0 \<le> pseudoRandom x y sd" "pseudoRandom x y sd < 1"
  unfolding pseudoRandom_def Let_def by linarith+

lemma destOrigin_floor:
  assumes "0 < W" "0 < H"
  shows "destOrigin W H s x y =
     (let a = srcX s x + horizontalShift s * xFactor (tileFactors s x y);
          b = srcY s y + verticalShift s * yFactor (tileFactors s x y)
      in (a - real W * of_int \<lfloor>a / real W\<rfloor>, b - real H * of_int \<lfloor>b / real H\<rfloor>))"
  using assms unfolding destOrigin_def Let_def by (simp add: wrap_floor)

lemma destOrigin_range:
  assumes "0 < W" "0 < H"
  shows "0 \<le> fst (destOrigin W H s x y)" "fst (destOrigin W H s x y) < real W"
        "0 \<le> snd (destOrigin W H s x y)" "snd (destOrigin W H s x y) < real H"
  using assms floor_mod_range[of "real W"] floor_mod_range[of "real H"]
  unfolding destOrigin_floor[OF assms] Let_def by simp_all

section \<open>Shift factors\<close>

lemma floor_half_nat: "\<lfloor>real n / 2\<rfloor> = int (n div 2)"
  using floor_divide_of_nat_eq[of n 2] by simp

lemma getShiftFactors_nat:
  "getShiftFactors (real col) (real row) p =
     \<lparr>xFactor = table_xFactor p col row, yFactor = table_yFactor p col row\<rparr>"
proof (cases p)
  case Plain
  then show ?thesis
    using jsmod_nat[of row 2] jsmod_nat[of col 2]
    by (simp add: table_xFactor_def table_yFactor_def)
next
  case Twill
  then show ?thesis
    using jsmod_nat[of row 4] jsmod_nat[of col 4]
    by (simp add: table_xFactor_def table_yFactor_def)
next
  case Satin
  then show ?thesis
    using jsmod_nat[of "row * 3" 5] jsmod_nat[of "col * 3" 5]
    by (simp add: table_xFactor_def table_yFactor_def)
next
  case Basket
  then show ?thesis
    using jsmod_nat[of "row div 2" 2] jsmod_nat[of "col div 2" 2]
    by (simp add: table_xFactor_def table_yFactor_def floor_half_nat)
qed

text \<open>
  Claim C1. For every tile index \<open>(col, row)\<close> and every pattern the factors computed by
  \<open>getShiftFactors\<close> are those of the specification's table: plain gives the sign of the
  parity of the row (for x) and of the column (for y), twill gives
  \<open>((row % 4) - 1.5) * 1.5\<close> and \<open>((col % 4) - 1.5) * 1.5\<close>, satin gives
  \<open>((row * 3) % 5) - 2\<close> and \<open>((col * 3) % 5) - 2\<close>, basket gives the sign of the
  parity of \<open>floor(row / 2)\<close> and of \<open>floor(col / 2)\<close>. The factors the loop uses for a
  tile depend on the tile index and the pattern only: changing the two shift magnitudes
  leaves them as they are.
\<close>

theorem shift_factors_match_table:
  "tileFactors s col row =
     \<lparr>xFactor = table_xFactor (pattern s) col row, yFactor = table_yFactor (pattern s) col row\<rparr>
   \<and> getShiftFactors (real col) (real row) p =
     \<lparr>xFactor = table_xFactor p col row, yFactor = table_yFactor p col row\<rparr>
   \<and> tileFactors (s\<lparr>horizontalShift := hs, verticalShift := vs\<rparr>) col row = tileFactors s col row"
proof -
  have loop: "tileFactors s col row = getShiftFactors (real col) (real row) (pattern s)"
    by (simp add: tileFactors_def)
  have table: "getShiftFactors (real col) (real row) q =
     \<lparr>xFactor = table_xFactor q col row, yFactor = table_yFactor q col row\<rparr>" for q
    by (rule getShiftFactors_nat)
  have same: "tileFactors (s\<lparr>horizontalShift := hs, verticalShift := vs\<rparr>) col row = tileFactors s col row"
    by (simp add: tileFactors_def)
  from loop table same show ?thesis by simp
qed

section \<open>Displacement and wraparound\<close>

text \<open>
  Claim C2. For every tile of the grid the origin before scatter is
  \<open>destX = ((srcX + horizontalShift * xFactor) % width + width) % width\<close> and
  \<open>destY = ((srcY + verticalShift * yFactor) % height + height) % height\<close>, and for
  all shift values, negative ones too, \<open>0 \<le> destX < width\<close> and
  \<open>0 \<le> destY < height\<close>: displacement never moves a tile off the raster.
\<close>

theorem destination_wraps_onto_raster:
  assumes "(x, y) \<in> set (tiles W H s)"
  shows "fst (destOrigin W H s x y) =
           jsmod (jsmod (srcX s x + horizontalShift s * xFactor (tileFactors s x y)) (real W) + real W) (real W)
       \<and> snd (destOrigin W H s x y) =
           jsmod (jsmod (srcY s y + verticalShift s * yFactor (tileFactors s x y)) (real H) + real H) (real H)
       \<and> 0 \<le> fst (destOrigin W H s x y) \<and> fst (destOrigin W H s x y) < real W
       \<and> 0 \<le> snd (destOrigin W H s x y) \<and> snd (destOrigin W H s x y) < real H"
proof -
  from assms have W: "0 < W" and H: "0 < H"
    using cols_pos_width rows_pos_height by (auto simp: tiles_mem)
  have "fst (destOrigin W H s x y) =
           jsmod (jsmod (srcX s x + horizontalShift s * xFactor (tileFactors s x y)) (real W) + real W) (real W)"
    and "snd (destOrigin W H s x y) =
           jsmod (jsmod (srcY s y + verticalShift s * yFactor (tileFactors s x y)) (real H) + real H) (real H)"
    by (simp_all add: destOrigin_def Let_def)
  then show ?thesis using destOrigin_range[OF W H, of s x y] by simp
qed

theorem destination_wraps_onto_raster_witness:
  "(0, 1) \<in> set (tiles 100 100 scenario) \<and> destOrigin 100 100 scenario 0 1 = (50, 50)"
proof -
  have t: "(0, 1) \<in> set (tiles 100 100 scenario)"
    by (simp add: tiles_mem cols_def rows_def engineTileSize_def scenario_def)
  have "fst (destOrigin 100 100 scenario 0 1) = 50 \<and> snd (destOrigin 100 100 scenario 0 1) = 50"
    using destination_wraps_onto_raster[OF t]
    by (simp add: tileFactors_def srcX_def srcY_def engineTileSize_def scenario_def jsmod_def trunc_def)
  then have "destOrigin 100 100 scenario 0 1 = (50, 50)" by (simp add: prod_eq_iff)
  with t show ?thesis by blast
qed

section \<open>Deterministic scatter\<close>

text \<open>
  Claim C3. For every tile \<open>(col, row)\<close> the hash is
  \<open>frac (sin (col * 12.9898 + row * 78.233 + seed) * 43758.5453)\<close> and lies in
  \<open>[0, 1)\<close>. The tile gets the extra jump exactly when \<open>hash < scatterIntensity / 100\<close>;
  the jump goes right when \<open>(hash * 10) % 2 < 1\<close> and down otherwise; a right jump
  replaces \<open>destX\<close> by \<open>(destX + tileSize) % width\<close> and keeps \<open>destY\<close>, a down jump
  replaces \<open>destY\<close> by \<open>(destY + tileSize) % height\<close> and keeps \<open>destX\<close>, so one axis
  is changed and never both. With \<open>scatterIntensity = 100\<close> the tile loop runs and every
  tile jumps: its final origin is its origin before scatter moved by one tile size along
  one axis, modulo that dimension. The tile size is the one the engine works with,
  \<open>engineTileSize\<close>.
\<close>

theorem scatter_jump:
  "pseudoRandom (real x) (real y) (seed s) =
      frac (sin (real x * 12.9898 + real y * 78.233 + seed s) * 43758.5453)
   \<and> 0 \<le> pseudoRandom (real x) (real y) (seed s) \<and> pseudoRandom (real x) (real y) (seed s) < 1
   \<and> (\<not> pseudoRandom (real x) (real y) (seed s) < scatterIntensity s / 100 \<longrightarrow>
         finalDest W H s x y = destOrigin W H s x y)
   \<and> (pseudoRandom (real x) (real y) (seed s) < scatterIntensity s / 100
        \<and> jsmod (pseudoRandom (real x) (real y) (seed s) * 10) 2 < 1 \<longrightarrow>
         finalDest W H s x y =
           (jsmod (fst (destOrigin W H s x y) + engineTileSize s) (real W), snd (destOrigin W H s x y)))
   \<and> (pseudoRandom (real x) (real y) (seed s) < scatterIntensity s / 100
        \<and> \<not> jsmod (pseudoRandom (real x) (real y) (seed s) * 10) 2 < 1 \<longrightarrow>
         finalDest W H s x y =
           (fst (destOrigin W H s x y), jsmod (snd (destOrigin W H s x y) + engineTileSize s) (real H)))
   \<and> (scatterIntensity s = 100 \<longrightarrow>
         \<not> fastPath s
       \<and> pseudoRandom (real x) (real y) (seed s) < scatterIntensity s / 100
       \<and> (finalDest W H s x y =
             (jsmod (fst (destOrigin W H s x y) + engineTileSize s) (real W), snd (destOrigin W H s x y))
          \<or> finalDest W H s x y =
             (fst (destOrigin W H s x y), jsmod (snd (destOrigin W H s x y) + engineTileSize s) (real H))))"
proof -
  have 1: "pseudoRandom (real x) (real y) (seed s) =
      frac (sin (real x * 12.9898 + real y * 78.233 + seed s) * 43758.5453)"
    by (simp add: pseudoRandom_def frac_def Let_def)
  have 2: "\<not> pseudoRandom (real x) (real y) (seed s) < scatterIntensity s / 100 \<Longrightarrow>
         finalDest W H s x y = destOrigin W H s x y"
    by (simp add: finalDest_def Let_def split_beta)
  have 3: "pseudoRandom (real x) (real y) (seed s) < scatterIntensity s / 100
        \<Longrightarrow> jsmod (pseudoRandom (real x) (real y) (seed s) * 10) 2 < 1 \<Longrightarrow>
         finalDest W H s x y =
           (jsmod (fst (destOrigin W H s x y) + engineTileSize s) (real W), snd (destOrigin W H s x y))"
    by (simp add: finalDest_def Let_def split_beta)
  have 4: "pseudoRandom (real x) (real y) (seed s) < scatterIntensity s / 100
        \<Longrightarrow> \<not> jsmod (pseudoRandom (real x) (real y) (seed s) * 10) 2 < 1 \<Longrightarrow>
         finalDest W H s x y =
           (fst (destOrigin W H s x y), jsmod (snd (destOrigin W H s x y) + engineTileSize s) (real H))"
    by (simp add: finalDest_def Let_def split_beta)
  have 5: "scatterIntensity s = 100 \<Longrightarrow> pseudoRandom (real x) (real y) (seed s) < scatterIntensity s / 100"
    using pseudoRandom_range(2)[of "real x" "real y" "seed s"] by simp
  have 6: "scatterIntensity s = 100 \<Longrightarrow> \<not> fastPath s"
    by (simp add: fastPath_def)
  show ?thesis using 1 2 3 4 5 6 pseudoRandom_range[of "real x" "real y" "seed s"] by blast
qed

theorem scatter_jump_witness:
  "scatterIntensity scenario100 = 100 \<and> pseudoRandom (real 0) (real 0) (seed scenario100) = 0
   \<and> destOrigin 100 100 scenario100 0 0 = (50, 0)
   \<and> finalDest 100 100 scenario100 0 0 = (0, 0)"
proof -
  have h: "pseudoRandom (real 0) (real 0) (seed scenario100) = 0"
    by (simp add: pseudoRandom_def scenario100_def)
  have d: "destOrigin 100 100 scenario100 0 0 = (50, 0)"
    by (simp add: destOrigin_def tileFactors_def srcX_def srcY_def engineTileSize_def scenario100_def jsmod_def trunc_def)
  have "finalDest 100 100 scenario100 0 0 = (0, 0)"
    using scatter_jump[of 0 0 scenario100 100 100] unfolding h d
    by (simp add: scenario100_def engineTileSize_def jsmod_def trunc_def)
  with h d show ?thesis by (simp add: scenario100_def)
qed

section \<open>The seam-aware composite\<close>

lemma finalDest_range:
  assumes "0 < W" "0 < H"
  shows "0 \<le> fst (finalDest W H s x y)" "fst (finalDest W H s x y) < real W"
        "0 \<le> snd (finalDest W H s x y)" "snd (finalDest W H s x y) < real H"
proof -
  note d = destOrigin_range[OF assms, of s x y]
  have t: "0 \<le> engineTileSize s" using engineTileSize_ge2[of s] by simp
  have jx: "0 \<le> jsmod (fst (destOrigin W H s x y) + engineTileSize s) (real W)"
           "jsmod (fst (destOrigin W H s x y) + engineTileSize s) (real W) < real W"
    using jsmod_range[of "real W" "fst (destOrigin W H s x y) + engineTileSize s"] assms d t by simp_all
  have jy: "0 \<le> jsmod (snd (destOrigin W H s x y) + engineTileSize s) (real H)"
           "jsmod (snd (destOrigin W H s x y) + engineTileSize s) (real H) < real H"
    using jsmod_range[of "real H" "snd (destOrigin W H s x y) + engineTileSize s"] assms d t by simp_all
  show "0 \<le> fst (finalDest W H s x y)" "fst (finalDest W H s x y) < real W"
        "0 \<le> snd (finalDest W H s x y)" "snd (finalDest W H s x y) < real H"
    using d jx jy by (simp_all add: finalDest_def Let_def split_beta)
qed

lemma tileW_range:
  assumes "int x < cols W s"
  shows "0 < tileW W s x" "tileW W s x \<le> engineTileSize s" "srcX s x + tileW W s x \<le> real W"
  using srcX_less_width[OF assms] engineTileSize_ge2[of s] by (simp_all add: tileW_def)

lemma tileH_range:
  assumes "int y < rows H s"
  shows "0 < tileH H s y" "tileH H s y \<le> engineTileSize s" "srcY s y + tileH H s y \<le> real H"
  using srcY_less_height[OF assms] engineTileSize_ge2[of s] by (simp_all add: tileH_def)

lemma drawWrapped_shows_once:
  assumes "0 \<le> dx" "dx < real W" "0 \<le> dy" "dy < real H"
    and "w \<le> real W" "h \<le> real H"
    and "0 \<le> i" "i < w" "0 \<le> j" "j < h"
  shows "filter (\<lambda>d. paints W H d (dst_x d + i, dst_y d + j)) (drawWrapped W H sx sy w h dx dy)
       = [\<lparr>src_x = sx, src_y = sy, ext_w = w, ext_h = h,
           dst_x = (if dx + i < real W then dx else dx - real W),
           dst_y = (if dy + j < real H then dy else dy - real H)\<rparr>]"
  using assms unfolding drawWrapped_def paints_def
  by (auto)


lemma finalDest_no_scatter:
  assumes "scatterIntensity s \<le> 0"
  shows "finalDest W H s x y = destOrigin W H s x y"
  using assms pseudoRandom_range(1)[of "real x" "real y" "seed s"]
  by (simp add: finalDest_def Let_def split_beta)

lemma floor_div_below:
  fixes a b :: real
  assumes "0 \<le> a" "a < b"
  shows "\<lfloor>a / b\<rfloor> = 0"
proof -
  have "0 \<le> a / b" "a / b < 1" using assms by simp_all
  then show ?thesis by linarith
qed

lemma floor_div_once:
  fixes a b :: real
  assumes "b \<le> a" "a < 2 * b" "0 < b"
  shows "\<lfloor>a / b\<rfloor> = 1"
proof -
  have "1 \<le> a / b" "a / b < 2" using assms by (simp_all add: pos_le_divide_eq pos_divide_less_eq)
  then show ?thesis by linarith
qed

lemma wrapped_offset:
  fixes a b :: real
  assumes "0 \<le> a" "a < 2 * b" "0 < b"
  shows "(if a < b then a else a - b) = a - b * of_int \<lfloor>a / b\<rfloor>"
  using assms floor_div_below[of a b] floor_div_once[of b a] by (cases "a < b") simp_all

text \<open>
  Claim C4. For every tile of the grid, with final origin \<open>(finalDestX, finalDestY)\<close> and
  clipped extent \<open>(w, h)\<close>: when \<open>finalDestX + w \<le> width\<close> and
  \<open>finalDestY + h \<le> height\<close> the tile is copied by exactly one call, from its rectangle
  of the read buffer to the destination rectangle; otherwise the four placements at the
  offsets \<open>{0, -width} \<times> {0, -height}\<close> are tried and exactly those whose rectangle
  overlaps the raster are copied. Every point of the tile is shown on the raster by exactly
  one of the calls issued, at its destination taken modulo width and height: the
  fragments of a wrapping tile together are the tile.
\<close>

theorem seam_aware_composite:
  assumes "(x, y) \<in> set (tiles W H s)"
  shows
    "let fx = fst (finalDest W H s x y); fy = snd (finalDest W H s x y);
         sx = srcX s x; sy = srcY s y; w = tileW W s x; h = tileH H s y;
         call = (\<lambda>(px, py). \<lparr>src_x = sx, src_y = sy, ext_w = w, ext_h = h, dst_x = px, dst_y = py\<rparr>)
     in (fx + w \<le> real W \<and> fy + h \<le> real H \<longrightarrow> tileDraws W H s x y = [call (fx, fy)])
      \<and> (\<not> (fx + w \<le> real W \<and> fy + h \<le> real H) \<longrightarrow>
           tileDraws W H s x y =
             map call (filter (\<lambda>(px, py). px + w > 0 \<and> px < real W \<and> py + h > 0 \<and> py < real H)
               [(fx, fy), (fx - real W, fy), (fx, fy - real H), (fx - real W, fy - real H)]))
      \<and> (\<forall>i j. 0 \<le> i \<and> i < w \<and> 0 \<le> j \<and> j < h \<longrightarrow>
           (\<exists>d. filter (\<lambda>d. paints W H d (dst_x d + i, dst_y d + j)) (tileDraws W H s x y) = [d]
              \<and> srcPoint d (dst_x d + i, dst_y d + j) = (sx + i, sy + j)
              \<and> dst_x d + i = fx + i - real W * of_int \<lfloor>(fx + i) / real W\<rfloor>
              \<and> dst_y d + j = fy + j - real H * of_int \<lfloor>(fy + j) / real H\<rfloor>))"
proof -
  define fx fy where "fx = fst (finalDest W H s x y)" and "fy = snd (finalDest W H s x y)"
  define sx sy where "sx = srcX s x" and "sy = srcY s y"
  define w h where "w = tileW W s x" and "h = tileH H s y"
  define call where
    "call = (\<lambda>(px, py). \<lparr>src_x = sx, src_y = sy, ext_w = w, ext_h = h, dst_x = px, dst_y = py\<rparr>)"
  from assms have xy: "int x < cols W s" "int y < rows H s" by (simp_all add: tiles_mem)
  then have W: "0 < W" and H: "0 < H" using cols_pos_width rows_pos_height by blast+
  have td: "tileDraws W H s x y = drawWrapped W H sx sy w h fx fy"
    by (simp add: tileDraws_def split_beta fx_def fy_def sx_def sy_def w_def h_def)
  have f: "0 \<le> fx" "fx < real W" "0 \<le> fy" "fy < real H"
    using finalDest_range[OF W H, of s x y] by (simp_all add: fx_def fy_def)
  have wh: "0 < w" "w \<le> real W" "0 < h" "h \<le> real H"
    using tileW_range[OF xy(1)] tileH_range[OF xy(2)] srcX_nonneg[of s x] srcY_nonneg[of s y]
    by (simp_all add: w_def h_def)
  have direct: "fx + w \<le> real W \<and> fy + h \<le> real H \<longrightarrow> tileDraws W H s x y = [call (fx, fy)]"
    by (simp add: td drawWrapped_def call_def)
  have split: "\<not> (fx + w \<le> real W \<and> fy + h \<le> real H) \<longrightarrow>
           tileDraws W H s x y =
             map call (filter (\<lambda>(px, py). px + w > 0 \<and> px < real W \<and> py + h > 0 \<and> py < real H)
               [(fx, fy), (fx - real W, fy), (fx, fy - real H), (fx - real W, fy - real H)])"
  proof
    assume n: "\<not> (fx + w \<le> real W \<and> fy + h \<le> real H)"
    show "tileDraws W H s x y =
             map call (filter (\<lambda>(px, py). px + w > 0 \<and> px < real W \<and> py + h > 0 \<and> py < real H)
               [(fx, fy), (fx - real W, fy), (fx, fy - real H), (fx - real W, fy - real H)])"
      unfolding td drawWrapped_def call_def by (rule if_not_P[OF n])
  qed
  have once: "\<exists>d. filter (\<lambda>d. paints W H d (dst_x d + i, dst_y d + j)) (tileDraws W H s x y) = [d]
              \<and> srcPoint d (dst_x d + i, dst_y d + j) = (sx + i, sy + j)
              \<and> dst_x d + i = fx + i - real W * of_int \<lfloor>(fx + i) / real W\<rfloor>
              \<and> dst_y d + j = fy + j - real H * of_int \<lfloor>(fy + j) / real H\<rfloor>"
    if ij: "0 \<le> i \<and> i < w \<and> 0 \<le> j \<and> j < h" for i j
  proof -
    let ?d = "\<lparr>src_x = sx, src_y = sy, ext_w = w, ext_h = h,
           dst_x = (if fx + i < real W then fx else fx - real W),
           dst_y = (if fy + j < real H then fy else fy - real H)\<rparr>"
    have 1: "filter (\<lambda>d. paints W H d (dst_x d + i, dst_y d + j)) (tileDraws W H s x y) = [?d]"
      unfolding td using drawWrapped_shows_once[of fx W fy H w h i j sx sy] f wh ij by simp
    have 2: "srcPoint ?d (dst_x ?d + i, dst_y ?d + j) = (sx + i, sy + j)"
      by (simp add: srcPoint_def)
    have 3: "dst_x ?d + i = fx + i - real W * of_int \<lfloor>(fx + i) / real W\<rfloor>"
      using wrapped_offset[of "fx + i" "real W"] f wh ij W by (simp split: if_splits)
    have 4: "dst_y ?d + j = fy + j - real H * of_int \<lfloor>(fy + j) / real H\<rfloor>"
      using wrapped_offset[of "fy + j" "real H"] f wh ij H by (simp split: if_splits)
    from 1 2 3 4 show ?thesis by blast
  qed
  show ?thesis
    unfolding Let_def
    using direct split once
    unfolding fx_def fy_def sx_def sy_def w_def h_def call_def
    by blast
qed


theorem seam_aware_composite_witness:
  "(1, 0) \<in> set (tiles 100 100 scenario30)
   \<and> finalDest 100 100 scenario30 1 0 = (80, 0)
   \<and> tileDraws 100 100 scenario30 1 0 =
       [\<lparr>src_x = 50, src_y = 0, ext_w = 50, ext_h = 50, dst_x = 80, dst_y = 0\<rparr>,
        \<lparr>src_x = 50, src_y = 0, ext_w = 50, ext_h = 50, dst_x = -20, dst_y = 0\<rparr>]"
proof -
  have t: "(1, 0) \<in> set (tiles 100 100 scenario30)"
    by (simp add: tiles_mem cols_def rows_def engineTileSize_def scenario30_def)
  have "destOrigin 100 100 scenario30 1 0 = (80, 0)"
    by (simp add: destOrigin_def tileFactors_def srcX_def srcY_def engineTileSize_def
        scenario30_def jsmod_def trunc_def)
  then have fd: "finalDest 100 100 scenario30 1 0 = (80, 0)"
    by (simp add: finalDest_no_scatter scenario30_def)
  have g: "srcX scenario30 1 = 50" "srcY scenario30 0 = 0"
          "tileW 100 scenario30 1 = 50" "tileH 100 scenario30 0 = 50"
    by (simp_all add: srcX_def srcY_def tileW_def tileH_def engineTileSize_def scenario30_def)
  have "tileDraws 100 100 scenario30 1 0 =
       [\<lparr>src_x = 50, src_y = 0, ext_w = 50, ext_h = 50, dst_x = 80, dst_y = 0\<rparr>,
        \<lparr>src_x = 50, src_y = 0, ext_w = 50, ext_h = 50, dst_x = -20, dst_y = 0\<rparr>]"
    using seam_aware_composite[OF t] unfolding Let_def fd g by simp
  with t fd show ?thesis by blast
qed

section \<open>The tile size the engine works with\<close>

text \<open>
  Claim C10 reads: the engine neither validates nor clamps \<open>tileSize\<close>, and the grid is
  \<open>cols = ceil(width / tileSize)\<close>, \<open>rows = ceil(height / tileSize)\<close> with the
  configured value as supplied, also below 2. The engine does clamp: with a configured
  tile size of 1 a raster 4 wide is cut into 2 columns, not into 4.
\<close>

theorem tileSize_unclamped_counterexample:
  "cols 4 (scenario\<lparr>tileSize := 1\<rparr>) = 2
   \<and> cols 4 (scenario\<lparr>tileSize := 1\<rparr>) \<noteq> \<lceil>real 4 / tileSize (scenario\<lparr>tileSize := 1\<rparr>)\<rceil>"
  by (simp add: cols_def engineTileSize_def scenario_def)

text \<open>
  Claim C10, amended. The engine clamps the tile size itself: it works with
  \<open>max 2 tileSize\<close>, which is at least 2, and the grid is
  \<open>cols = ceil(width / max 2 tileSize)\<close>, \<open>rows = ceil(height / max 2 tileSize)\<close>. A
  configured tile size of 2 or more is used as supplied; a smaller one (zero and negative
  ones too) gives the grid of tile size 2. So for every configured value the grid has at
  most \<open>ceil(width / 2)\<close> columns and \<open>ceil(height / 2)\<close> rows, and every tile of it has
  a positive extent that lies on the raster.
\<close>

theorem tileSize_clamped_by_engine:
  "2 \<le> engineTileSize s
   \<and> cols W s = \<lceil>real W / max 2 (tileSize s)\<rceil> \<and> rows H s = \<lceil>real H / max 2 (tileSize s)\<rceil>
   \<and> (2 \<le> tileSize s \<longrightarrow> cols W s = \<lceil>real W / tileSize s\<rceil> \<and> rows H s = \<lceil>real H / tileSize s\<rceil>)
   \<and> (tileSize s < 2 \<longrightarrow> cols W s = \<lceil>real W / 2\<rceil> \<and> rows H s = \<lceil>real H / 2\<rceil>)
   \<and> 0 \<le> cols W s \<and> cols W s \<le> \<lceil>real W / 2\<rceil> \<and> 0 \<le> rows H s \<and> rows H s \<le> \<lceil>real H / 2\<rceil>
   \<and> (\<forall>x y. (x, y) \<in> set (tiles W H s) \<longrightarrow>
         0 < tileW W s x \<and> srcX s x + tileW W s x \<le> real W
       \<and> 0 < tileH H s y \<and> srcY s y + tileH H s y \<le> real H)"
proof -
  have ts: "2 \<le> engineTileSize s" by (rule engineTileSize_ge2)
  have up: "real n / engineTileSize s \<le> real n / 2" for n
    using ts by (intro divide_left_mono) simp_all
  have lo: "0 \<le> real n / engineTileSize s" for n
    using ts by simp
  have c: "0 \<le> cols W s" "cols W s \<le> \<lceil>real W / 2\<rceil>"
    unfolding cols_def using lo[of W] ceiling_mono[OF up[of W]] by (simp_all add: order_trans[of 0])
  have r: "0 \<le> rows H s" "rows H s \<le> \<lceil>real H / 2\<rceil>"
    unfolding rows_def using lo[of H] ceiling_mono[OF up[of H]] by (simp_all add: order_trans[of 0])
  have t: "0 < tileW W s x \<and> srcX s x + tileW W s x \<le> real W
       \<and> 0 < tileH H s y \<and> srcY s y + tileH H s y \<le> real H"
    if "(x, y) \<in> set (tiles W H s)" for x y
    using that tileW_range[of x W s] tileH_range[of y H s] by (simp add: tiles_mem)
  have d: "cols W s = \<lceil>real W / max 2 (tileSize s)\<rceil>" "rows H s = \<lceil>real H / max 2 (tileSize s)\<rceil>"
    "2 \<le> tileSize s \<longrightarrow> cols W s = \<lceil>real W / tileSize s\<rceil> \<and> rows H s = \<lceil>real H / tileSize s\<rceil>"
    "tileSize s < 2 \<longrightarrow> cols W s = \<lceil>real W / 2\<rceil> \<and> rows H s = \<lceil>real H / 2\<rceil>"
    by (simp_all add: cols_def rows_def engineTileSize_def max_def)
  show ?thesis using ts c r t d by blast
qed

theorem tileSize_clamped_by_engine_witness:
  "tileSize (scenario\<lparr>tileSize := 0\<rparr>) < 2 \<and> cols 5 (scenario\<lparr>tileSize := 0\<rparr>) = 3
   \<and> 2 \<le> tileSize scenario \<and> cols 100 scenario = 2
   \<and> (1, 0) \<in> set (tiles 100 100 scenario) \<and> 0 < tileW 100 scenario 1"
proof -
  have t: "(1, 0) \<in> set (tiles 100 100 scenario)"
    by (simp add: tiles_mem cols_def rows_def engineTileSize_def scenario_def)
  have a: "tileSize (scenario\<lparr>tileSize := 0\<rparr>) < 2" "2 \<le> tileSize scenario"
    by (simp_all add: scenario_def)
  from tileSize_clamped_by_engine[of "scenario\<lparr>tileSize := 0\<rparr>" 5 5] a(1)
  have 1: "cols 5 (scenario\<lparr>tileSize := 0\<rparr>) = 3" by simp
  from tileSize_clamped_by_engine[of scenario 100 100] a(2)
  have 2: "cols 100 scenario = 2" by (simp add: scenario_def)
  from tileSize_clamped_by_engine[of scenario 100 100] t
  have 3: "0 < tileW 100 scenario 1" by blast
  from t a 1 2 3 show ?thesis by blast
qed

section \<open>The render operation on pixels\<close>

lemma resizeTo_fields:
  "cwidth (resizeTo c W H) = W" "cheight (resizeTo c W H) = H"
  "context2d (resizeTo c W H) = context2d c"
  by (simp_all add: resizeTo_def setWidth_def setHeight_def Let_def)

lemma shown_cleared:
  "shown (clearRect (resizeTo c W H) W H) = (W, H, \<lambda>p. None)"
  by (auto simp: shown_def pixelAt_def onCanvas_def clearRect_def resizeTo_fields fun_eq_iff)

lemma shown_image_drawn:
  "shown (drawImage3 (clearRect (resizeTo c (iwidth img) (iheight img)) (iwidth img) (iheight img)) img)
     = shownImage img"
  by (auto simp: shown_def shownImage_def positions_def pixelAt_def onCanvas_def drawImage3_def
      clearRect_def resizeTo_fields fun_eq_iff)

lemma renderWeave_fast:
  assumes "fastPath s" "context2d tempCanvas"
  shows "map_option (shown \<circ> fst) (renderWeave ctx img s tempCanvas) = Some (shownImage img)"
  using assms by (simp add: renderWeave_def Let_def resizeTo_fields shown_image_drawn)

lemma paints_onCanvas:
  "paints (cwidth c) (cheight c) d (real_of_int u, real_of_int v) \<Longrightarrow> onCanvas c (u, v)"
  by (simp add: paints_def onCanvas_def)

lemma drawImage9_result:
  assumes "drawImage9 c src d = Some c'"
  shows "cwidth c' = cwidth c" and "cheight c' = cheight c" and "context2d c' = context2d c"
    and "pixelAt c' (u, v) =
      (if paints (cwidth c) (cheight c) d (real_of_int u, real_of_int v)
       then (case pixelAt src (srcPixel d (u, v)) of Some q \<Rightarrow> Some q | None \<Rightarrow> pixelAt c (u, v))
       else pixelAt c (u, v))"
proof -
  from assms have c': "c' = c\<lparr>cpixels := (\<lambda>(u, v).
             if paints (cwidth c) (cheight c) d (real_of_int u, real_of_int v)
             then (case pixelAt src (srcPixel d (u, v)) of
                     Some q \<Rightarrow> Some q
                   | None \<Rightarrow> cpixels c (u, v))
             else cpixels c (u, v))\<rparr>"
    by (simp add: drawImage9_def split: if_splits)
  show "cwidth c' = cwidth c" "cheight c' = cheight c" "context2d c' = context2d c"
    by (simp_all add: c')
  have on: "onCanvas c' (u, v) = onCanvas c (u, v)" by (simp add: c' onCanvas_def)
  show "pixelAt c' (u, v) =
      (if paints (cwidth c) (cheight c) d (real_of_int u, real_of_int v)
       then (case pixelAt src (srcPixel d (u, v)) of Some q \<Rightarrow> Some q | None \<Rightarrow> pixelAt c (u, v))
       else pixelAt c (u, v))"
  proof (cases "paints (cwidth c) (cheight c) d (real_of_int u, real_of_int v)")
    case True
    then have "onCanvas c (u, v)" by (rule paints_onCanvas)
    then show ?thesis using True
      by (simp add: pixelAt_def[of c'] pixelAt_def[of c] on split: option.split) (simp add: c')
  next
    case False
    then show ?thesis by (simp add: pixelAt_def[of c'] pixelAt_def[of c] on) (simp add: c')
  qed
qed

lemma drawImage9_shown:
  assumes "shown c = shown c'" "pixelAt src = pixelAt src'"
  shows "map_option shown (drawImage9 c src d) = map_option shown (drawImage9 c' src' d)"
proof (cases "aligned d")
  case False
  then show ?thesis by (simp add: drawImage9_def)
next
  case True
  then obtain c1 c1' where r: "drawImage9 c src d = Some c1" "drawImage9 c' src' d = Some c1'"
    by (simp add: drawImage9_def)
  from assms(1) have sz: "cwidth c = cwidth c'" "cheight c = cheight c'"
    and px: "pixelAt c = pixelAt c'"
    by (simp_all add: shown_def)
  have "pixelAt c1 p = pixelAt c1' p" for p
    by (cases p) (simp add: drawImage9_result(4)[OF r(1)] drawImage9_result(4)[OF r(2)] sz px assms(2)
        split: option.split)
  then have "pixelAt c1 = pixelAt c1'" by (simp add: fun_eq_iff)
  then show ?thesis
    using drawImage9_result(1,2)[OF r(1)] drawImage9_result(1,2)[OF r(2)] sz
    by (simp add: r shown_def)
qed

lemma paintAll_shown:
  assumes "shown c = shown c'" "pixelAt src = pixelAt src'"
  shows "map_option shown (paintAll c src ds) = map_option shown (paintAll c' src' ds)"
  using assms(1)
proof (induction ds arbitrary: c c')
  case Nil
  then show ?case by simp
next
  case (Cons d ds)
  have step: "map_option shown (drawImage9 c src d) = map_option shown (drawImage9 c' src' d)"
    using drawImage9_shown[OF Cons.prems assms(2)] .
  show ?case
  proof (cases "drawImage9 c src d")
    case None
    with step show ?thesis by (cases "drawImage9 c' src' d") simp_all
  next
    case (Some c1)
    with step obtain c1' where c1': "drawImage9 c' src' d = Some c1'" "shown c1 = shown c1'"
      by (cases "drawImage9 c' src' d") simp_all
    show ?thesis using Cons.IH[OF c1'(2)] Some c1'(1) by simp
  qed
qed


lemma pixelAt_image_drawn:
  "pixelAt (drawImage3 (clearRect (resizeTo c (iwidth img) (iheight img)) (iwidth img) (iheight img)) img)
     = (\<lambda>p. if p \<in> positions (iwidth img) (iheight img) then Some (ipixels img p) else None)"
  using shown_image_drawn[of c img] by (simp add: shown_def shownImage_def)

lemma renderWeave_shown:
  assumes "context2d tempCanvas"
  shows "map_option (shown \<circ> fst) (renderWeave ctx img s tempCanvas) =
     (if fastPath s then Some (shownImage img)
      else map_option shown
        (paintAll (clearRect (resizeTo ctx (iwidth img) (iheight img)) (iwidth img) (iheight img))
           (drawImage3 (clearRect (resizeTo tempCanvas (iwidth img) (iheight img)) (iwidth img) (iheight img)) img)
           (weaveDraws (iwidth img) (iheight img) s)))"
  using assms
  by (simp add: renderWeave_def Let_def resizeTo_fields shown_image_drawn split: option.split)

lemma renderWeave_shown_indep:
  assumes "context2d tempCanvas" "context2d tempCanvas'"
  shows "map_option (shown \<circ> fst) (renderWeave ctx' img s tempCanvas')
       = map_option (shown \<circ> fst) (renderWeave ctx img s tempCanvas)"
  unfolding renderWeave_shown[OF assms(1)] renderWeave_shown[OF assms(2)]
  using paintAll_shown[of "clearRect (resizeTo ctx' (iwidth img) (iheight img)) (iwidth img) (iheight img)"
      "clearRect (resizeTo ctx (iwidth img) (iheight img)) (iwidth img) (iheight img)"
      "drawImage3 (clearRect (resizeTo tempCanvas' (iwidth img) (iheight img)) (iwidth img) (iheight img)) img"
      "drawImage3 (clearRect (resizeTo tempCanvas (iwidth img) (iheight img)) (iwidth img) (iheight img)) img"]
  by (simp add: shown_cleared pixelAt_image_drawn)

lemma engineTileSize_opacity: "engineTileSize (s\<lparr>opacity := a\<rparr>) = engineTileSize s"
  by (simp add: engineTileSize_def)

lemma tiles_opacity: "tiles W H (s\<lparr>opacity := a\<rparr>) = tiles W H s"
  by (simp add: tiles_def cols_def rows_def engineTileSize_opacity)

lemma src_opacity:
  "srcX (s\<lparr>opacity := a\<rparr>) x = srcX s x" "srcY (s\<lparr>opacity := a\<rparr>) y = srcY s y"
  "tileW W (s\<lparr>opacity := a\<rparr>) x = tileW W s x" "tileH H (s\<lparr>opacity := a\<rparr>) y = tileH H s y"
  by (simp_all add: srcX_def srcY_def tileW_def tileH_def engineTileSize_opacity)

lemma destOrigin_opacity: "destOrigin W H (s\<lparr>opacity := a\<rparr>) x y = destOrigin W H s x y"
  by (simp add: destOrigin_def tileFactors_def src_opacity)

lemma finalDest_opacity: "finalDest W H (s\<lparr>opacity := a\<rparr>) x y = finalDest W H s x y"
  by (simp add: finalDest_def destOrigin_opacity engineTileSize_opacity split_beta Let_def)

lemma tileDraws_opacity: "tileDraws W H (s\<lparr>opacity := a\<rparr>) x y = tileDraws W H s x y"
  by (simp add: tileDraws_def finalDest_opacity src_opacity split_beta)

lemma weaveDraws_opacity: "weaveDraws W H (s\<lparr>opacity := a\<rparr>) = weaveDraws W H s"
  by (simp add: weaveDraws_def tiles_opacity tileDraws_opacity)

text \<open>
  Claim C5. When \<open>|horizontalShift| < 0.5\<close>, \<open>|verticalShift| < 0.5\<close> and
  \<open>scatterIntensity < 0.5\<close>, the destination canvas shows the source image exactly,
  whatever the tile size, the pattern and the seed, and whatever the two canvases held
  before: the result is the one draw of the whole image onto the cleared canvas, and no
  tile is drawn. (The scratch canvas has its 2D context, as it always has in the preview.)
\<close>

theorem fast_path_copies_source:
  assumes "\<bar>horizontalShift s\<bar> < 0.5" and "\<bar>verticalShift s\<bar> < 0.5" and "scatterIntensity s < 0.5"
    and "context2d tempCanvas"
  shows "map_option (shown \<circ> fst) (renderWeave ctx img s tempCanvas) = Some (shownImage img)
     \<and> renderWeave ctx img s tempCanvas =
         Some (drawImage3 (clearRect (resizeTo ctx (iwidth img) (iheight img)) (iwidth img) (iheight img)) img,
               drawImage3 (clearRect (resizeTo tempCanvas (iwidth img) (iheight img)) (iwidth img) (iheight img)) img)"
proof -
  have f: "fastPath s" using assms(1-3) by (simp add: fastPath_def)
  show ?thesis
    using renderWeave_fast[OF f assms(4), of ctx img] f assms(4)
    by (simp add: renderWeave_def Let_def resizeTo_fields)
qed

theorem fast_path_copies_source_witness:
  "\<bar>horizontalShift faint\<bar> < 0.5 \<and> \<bar>verticalShift faint\<bar> < 0.5 \<and> scatterIntensity faint < 0.5
   \<and> context2d blankCanvas
   \<and> map_option (shown \<circ> fst) (renderWeave staleCanvas numbered4 faint blankCanvas) = Some (shownImage numbered4)"
proof -
  have h: "\<bar>horizontalShift faint\<bar> < 0.5" "\<bar>verticalShift faint\<bar> < 0.5" "scatterIntensity faint < 0.5"
    by (simp_all add: faint_def)
  have c: "context2d blankCanvas" by (simp add: blankCanvas_def)
  from fast_path_copies_source[OF h c, of staleCanvas numbered4] h c show ?thesis by blast
qed

text \<open>
  Claim C8. The render operation is a function of its arguments and does not read
  \<open>opacity\<close>: two configurations that differ in opacity only give the same result on
  the same canvases and the same list of tile draws, and two invocations on the same
  image give destination canvases that show the same, whatever the canvases held before
  (so also when the second invocation starts from what the first one left).
\<close>

theorem render_ignores_opacity:
  "renderWeave ctx img (s\<lparr>opacity := a\<rparr>) tempCanvas = renderWeave ctx img s tempCanvas
   \<and> weaveDraws W H (s\<lparr>opacity := a\<rparr>) = weaveDraws W H s
   \<and> (context2d tempCanvas \<and> context2d tempCanvas' \<longrightarrow>
        map_option (shown \<circ> fst) (renderWeave ctx' img (s\<lparr>opacity := a\<rparr>) tempCanvas')
          = map_option (shown \<circ> fst) (renderWeave ctx img s tempCanvas))"
proof -
  have 1: "renderWeave ctx img (s\<lparr>opacity := a\<rparr>) tempCanvas = renderWeave ctx img s tempCanvas" for ctx tempCanvas
    by (simp add: renderWeave_def weaveDraws_opacity fastPath_def Let_def)
  show ?thesis
    using 1 weaveDraws_opacity[where W = W and H = H and s = s and a = a]
      renderWeave_shown_indep[where tempCanvas = tempCanvas and tempCanvas' = tempCanvas'
        and ctx' = ctx' and img = img and s = s and ctx = ctx]
    by simp
qed

theorem render_ignores_opacity_witness:
  "context2d blankCanvas \<and> context2d staleCanvas
   \<and> map_option (shown \<circ> fst) (renderWeave staleCanvas numbered4 (scenario30\<lparr>opacity := 0\<rparr>) staleCanvas)
       = map_option (shown \<circ> fst) (renderWeave blankCanvas numbered4 scenario30 blankCanvas)"
proof -
  have c: "context2d blankCanvas" "context2d staleCanvas"
    by (simp_all add: blankCanvas_def staleCanvas_def)
  from render_ignores_opacity[where ctx = blankCanvas and img = numbered4 and s = scenario30 and a = 0
      and tempCanvas = blankCanvas and ctx' = staleCanvas and tempCanvas' = staleCanvas] c
  show ?thesis by blast
qed

section \<open>Which tile paints a point\<close>

lemma floorMod_range:
  assumes "0 < b"
  shows "0 \<le> floorMod a b" "floorMod a b < b"
  using floor_mod_range[OF assms, of a] by (simp_all add: floorMod_def)

lemma floorMod_unique:
  assumes "0 < b" "0 \<le> r" "r < b" "r = a + b * of_int k"
  shows "floorMod a b = r"
proof -
  have "a / b = r / b - of_int k" using assms(1,4) by (simp add: field_simps)
  moreover have "\<lfloor>r / b\<rfloor> = 0" using floor_div_below[OF assms(2,3)] .
  ultimately have "\<lfloor>a / b\<rfloor> = - k" by (simp add: floor_diff_of_int)
  then show ?thesis using assms(4) by (simp add: floorMod_def)
qed

lemma floorMod_small: "0 \<le> a \<Longrightarrow> a < b \<Longrightarrow> floorMod a b = a"
  using floor_div_below[of a b] by (simp add: floorMod_def)

lemma destOrigin_floorMod:
  assumes "0 < W" "0 < H"
  shows "destOrigin W H s x y =
     (floorMod (srcX s x + horizontalShift s * xFactor (tileFactors s x y)) (real W),
      floorMod (srcY s y + verticalShift s * yFactor (tileFactors s x y)) (real H))"
  using destOrigin_floor[OF assms, of s x y] by (simp add: floorMod_def Let_def)

text \<open>One axis of a placement: the source coordinate shown at \<open>u\<close>.\<close>

lemma wrap_source_1d:
  assumes "0 < W" and fx: "fx = floorMod (sx + \<delta>) W" and px: "px = fx \<or> px = fx - W"
    and "0 \<le> sx" "sx + w \<le> W" "px \<le> u" "u < px + w"
  shows "sx + (u - px) = floorMod (u - \<delta>) W"
proof -
  define m where "m = \<lfloor>(sx + \<delta>) / W\<rfloor>"
  have fx': "fx = sx + \<delta> - W * of_int m" by (simp add: fx floorMod_def m_def)
  from px obtain k :: int where k: "sx + (u - px) = (u - \<delta>) + W * of_int k"
  proof
    assume "px = fx"
    then have "sx + (u - px) = (u - \<delta>) + W * of_int m" by (simp add: fx')
    then show ?thesis using that by blast
  next
    assume "px = fx - W"
    then have "sx + (u - px) = (u - \<delta>) + W * of_int (m + 1)" by (simp add: fx' algebra_simps)
    then show ?thesis using that by blast
  qed
  have "0 \<le> sx + (u - px)" "sx + (u - px) < W" using assms(4-7) by simp_all
  from floorMod_unique[OF assms(1) this k] show ?thesis ..
qed

lemma wrap_dest_1d:
  assumes "0 < W" and "0 \<le> u" "u < W"
  shows "floorMod (floorMod (sx + \<delta>) W + (floorMod (u - \<delta>) W - sx)) W = u"
proof -
  have "u = floorMod (sx + \<delta>) W + (floorMod (u - \<delta>) W - sx)
            + W * of_int (\<lfloor>(sx + \<delta>) / W\<rfloor> + \<lfloor>(u - \<delta>) / W\<rfloor>)"
    by (simp add: floorMod_def algebra_simps)
  from floorMod_unique[OF assms this] show ?thesis .
qed


lemma drawWrapped_set:
  assumes "d \<in> set (drawWrapped W H sx sy w h dx dy)"
  shows "src_x d = sx" "src_y d = sy" "ext_w d = w" "ext_h d = h"
    "dst_x d = dx \<or> dst_x d = dx - real W" "dst_y d = dy \<or> dst_y d = dy - real H"
  using assms by (auto simp: drawWrapped_def split: if_splits)

lemma tile_paint_source:
  assumes t: "(x, y) \<in> set (tiles W H s)" and ns: "scatterIntensity s \<le> 0"
    and d: "d \<in> set (tileDraws W H s x y)" and p: "paints W H d (u, v)"
  shows "fst (srcPoint d (u, v)) = floorMod (u - horizontalShift s * xFactor (tileFactors s x y)) (real W)"
    and "snd (srcPoint d (u, v)) = floorMod (v - verticalShift s * yFactor (tileFactors s x y)) (real H)"
    and "srcX s x \<le> fst (srcPoint d (u, v))" and "fst (srcPoint d (u, v)) < srcX s x + tileW W s x"
    and "srcY s y \<le> snd (srcPoint d (u, v))" and "snd (srcPoint d (u, v)) < srcY s y + tileH H s y"
proof -
  from t have xy: "int x < cols W s" "int y < rows H s" by (simp_all add: tiles_mem)
  then have W: "0 < W" and H: "0 < H" using cols_pos_width rows_pos_height by blast+
  have fd: "finalDest W H s x y =
     (floorMod (srcX s x + horizontalShift s * xFactor (tileFactors s x y)) (real W),
      floorMod (srcY s y + verticalShift s * yFactor (tileFactors s x y)) (real H))"
    using finalDest_no_scatter[OF ns] destOrigin_floorMod[OF W H] by simp
  from d have d': "d \<in> set (drawWrapped W H (srcX s x) (srcY s y) (tileW W s x) (tileH H s y)
      (floorMod (srcX s x + horizontalShift s * xFactor (tileFactors s x y)) (real W))
      (floorMod (srcY s y + verticalShift s * yFactor (tileFactors s x y)) (real H)))"
    by (simp add: tileDraws_def fd)
  note ds = drawWrapped_set[OF d']
  from p have pu: "dst_x d \<le> u" "u < dst_x d + tileW W s x"
    and pv: "dst_y d \<le> v" "v < dst_y d + tileH H s y"
    by (simp_all add: paints_def ds)
  have sx: "fst (srcPoint d (u, v)) = srcX s x + (u - dst_x d)"
    and sy: "snd (srcPoint d (u, v)) = srcY s y + (v - dst_y d)"
    by (simp_all add: srcPoint_def ds)
  show "fst (srcPoint d (u, v)) = floorMod (u - horizontalShift s * xFactor (tileFactors s x y)) (real W)"
    unfolding sx
    by (rule wrap_source_1d[OF _ refl ds(5) srcX_nonneg tileW_range(3)[OF xy(1)] pu]) (simp add: W)
  show "snd (srcPoint d (u, v)) = floorMod (v - verticalShift s * yFactor (tileFactors s x y)) (real H)"
    unfolding sy
    by (rule wrap_source_1d[OF _ refl ds(6) srcY_nonneg tileH_range(3)[OF xy(2)] pv]) (simp add: H)
  show "srcX s x \<le> fst (srcPoint d (u, v))" "fst (srcPoint d (u, v)) < srcX s x + tileW W s x"
    using pu by (simp_all add: sx)
  show "srcY s y \<le> snd (srcPoint d (u, v))" "snd (srcPoint d (u, v)) < srcY s y + tileH H s y"
    using pv by (simp_all add: sy)
qed

lemma tile_paint_exists:
  assumes t: "(x, y) \<in> set (tiles W H s)" and ns: "scatterIntensity s \<le> 0"
    and u: "0 \<le> u" "u < real W" and v: "0 \<le> v" "v < real H"
    and U: "srcX s x \<le> floorMod (u - horizontalShift s * xFactor (tileFactors s x y)) (real W)"
           "floorMod (u - horizontalShift s * xFactor (tileFactors s x y)) (real W) < srcX s x + tileW W s x"
    and V: "srcY s y \<le> floorMod (v - verticalShift s * yFactor (tileFactors s x y)) (real H)"
           "floorMod (v - verticalShift s * yFactor (tileFactors s x y)) (real H) < srcY s y + tileH H s y"
  shows "\<exists>d \<in> set (tileDraws W H s x y). paints W H d (u, v)"
proof -
  from t have xy: "int x < cols W s" "int y < rows H s" by (simp_all add: tiles_mem)
  then have W: "0 < W" and H: "0 < H" using cols_pos_width rows_pos_height by blast+
  define dx where "dx = horizontalShift s * xFactor (tileFactors s x y)"
  define dy where "dy = verticalShift s * yFactor (tileFactors s x y)"
  define fx where "fx = floorMod (srcX s x + dx) (real W)"
  define fy where "fy = floorMod (srcY s y + dy) (real H)"
  define i where "i = floorMod (u - dx) (real W) - srcX s x"
  define j where "j = floorMod (v - dy) (real H) - srcY s y"
  have fd: "finalDest W H s x y = (fx, fy)"
    using finalDest_no_scatter[OF ns] destOrigin_floorMod[OF W H]
    by (simp add: fx_def fy_def dx_def dy_def)
  have td: "tileDraws W H s x y = drawWrapped W H (srcX s x) (srcY s y) (tileW W s x) (tileH H s y) fx fy"
    by (simp add: tileDraws_def fd)
  have f: "0 \<le> fx" "fx < real W" "0 \<le> fy" "fy < real H"
    using floorMod_range[of "real W"] floorMod_range[of "real H"] W H by (simp_all add: fx_def fy_def)
  have wh: "tileW W s x \<le> real W" "tileH H s y \<le> real H"
    using tileW_range(3)[OF xy(1)] tileH_range(3)[OF xy(2)] srcX_nonneg[of s x] srcY_nonneg[of s y]
    by simp_all
  have ij: "0 \<le> i" "i < tileW W s x" "0 \<le> j" "j < tileH H s y"
    using U V by (simp_all add: i_def j_def dx_def dy_def)
  let ?d = "\<lparr>src_x = srcX s x, src_y = srcY s y, ext_w = tileW W s x, ext_h = tileH H s y,
           dst_x = (if fx + i < real W then fx else fx - real W),
           dst_y = (if fy + j < real H then fy else fy - real H)\<rparr>"
  have 1: "filter (\<lambda>d. paints W H d (dst_x d + i, dst_y d + j)) (tileDraws W H s x y) = [?d]"
    unfolding td by (rule drawWrapped_shows_once[OF f wh ij])
  then have "?d \<in> set (filter (\<lambda>d. paints W H d (dst_x d + i, dst_y d + j)) (tileDraws W H s x y))"
    by simp
  then have mem: "?d \<in> set (tileDraws W H s x y)" and pt: "paints W H ?d (dst_x ?d + i, dst_y ?d + j)"
    by simp_all
  have "dst_x ?d + i = floorMod (fx + i) (real W)"
    using wrapped_offset[of "fx + i" "real W"] f wh ij W by (simp add: floorMod_def split: if_splits)
  also have "\<dots> = u"
    unfolding fx_def i_def using wrap_dest_1d[of "real W" u "srcX s x" dx] W u by simp
  finally have eu: "dst_x ?d + i = u" .
  have "dst_y ?d + j = floorMod (fy + j) (real H)"
    using wrapped_offset[of "fy + j" "real H"] f wh ij H by (simp add: floorMod_def split: if_splits)
  also have "\<dots> = v"
    unfolding fy_def j_def using wrap_dest_1d[of "real H" v "srcY s y" dy] H v by simp
  finally have ev: "dst_y ?d + j = v" .
  from pt have "paints W H ?d (u, v)" unfolding eu ev .
  with mem show ?thesis by blast
qed


lemma col_lookup:
  assumes "0 \<le> a" "a < real W" "int x < cols W s"
  shows "(srcX s x \<le> a \<and> a < srcX s x + tileW W s x) \<longleftrightarrow> x = nat \<lfloor>a / engineTileSize s\<rfloor>"
proof -
  have ts: "0 < engineTileSize s" using engineTileSize_ge2[of s] by simp
  have q: "0 \<le> a / engineTileSize s" using assms(1) ts by simp
  have "(srcX s x \<le> a \<and> a < srcX s x + tileW W s x)
      \<longleftrightarrow> (real x * engineTileSize s \<le> a \<and> a < (real x + 1) * engineTileSize s)"
    using assms(2) by (auto simp: srcX_def tileW_def min_def algebra_simps)
  also have "\<dots> \<longleftrightarrow> (real x \<le> a / engineTileSize s \<and> a / engineTileSize s < real x + 1)"
    using ts by (simp add: pos_le_divide_eq pos_divide_less_eq)
  also have "\<dots> \<longleftrightarrow> \<lfloor>a / engineTileSize s\<rfloor> = int x"
    by (simp add: floor_eq_iff)
  also have "\<dots> \<longleftrightarrow> x = nat \<lfloor>a / engineTileSize s\<rfloor>"
    using q by (auto simp: nat_eq_iff)
  finally show ?thesis .
qed

lemma row_lookup:
  assumes "0 \<le> a" "a < real H" "int y < rows H s"
  shows "(srcY s y \<le> a \<and> a < srcY s y + tileH H s y) \<longleftrightarrow> y = nat \<lfloor>a / engineTileSize s\<rfloor>"
proof -
  have ts: "0 < engineTileSize s" using engineTileSize_ge2[of s] by simp
  have q: "0 \<le> a / engineTileSize s" using assms(1) ts by simp
  have "(srcY s y \<le> a \<and> a < srcY s y + tileH H s y)
      \<longleftrightarrow> (real y * engineTileSize s \<le> a \<and> a < (real y + 1) * engineTileSize s)"
    using assms(2) by (auto simp: srcY_def tileH_def min_def algebra_simps)
  also have "\<dots> \<longleftrightarrow> (real y \<le> a / engineTileSize s \<and> a / engineTileSize s < real y + 1)"
    using ts by (simp add: pos_le_divide_eq pos_divide_less_eq)
  also have "\<dots> \<longleftrightarrow> \<lfloor>a / engineTileSize s\<rfloor> = int y"
    by (simp add: floor_eq_iff)
  also have "\<dots> \<longleftrightarrow> y = nat \<lfloor>a / engineTileSize s\<rfloor>"
    using q by (auto simp: nat_eq_iff)
  finally show ?thesis .
qed

lemma lookup_in_grid:
  assumes "0 \<le> a" "a < real n"
  shows "int (nat \<lfloor>a / engineTileSize s\<rfloor>) < \<lceil>real n / engineTileSize s\<rceil>"
proof -
  have ts: "0 < engineTileSize s" using engineTileSize_ge2[of s] by simp
  have "0 \<le> a / engineTileSize s" using assms(1) ts by simp
  then have 0: "0 \<le> \<lfloor>a / engineTileSize s\<rfloor>" by simp
  have "of_int \<lfloor>a / engineTileSize s\<rfloor> \<le> a / engineTileSize s" by simp
  also have "\<dots> < real n / engineTileSize s" using assms(2) ts by (simp add: divide_strict_right_mono)
  finally have "\<lfloor>a / engineTileSize s\<rfloor> < \<lceil>real n / engineTileSize s\<rceil>"
    by (simp add: less_ceiling_iff)
  then show ?thesis using 0 by simp
qed

lemma factors_one_index:
  "xFactor (tileFactors s x y) = xFactor (tileFactors s 0 y)"
  "yFactor (tileFactors s x y) = yFactor (tileFactors s x 0)"
  using getShiftFactors_nat[of x y "pattern s"] getShiftFactors_nat[of 0 y "pattern s"]
    getShiftFactors_nat[of x 0 "pattern s"]
  by (simp_all add: tileFactors_def table_xFactor_def table_yFactor_def)

lemma tile_writes_iff:
  assumes t: "(x, y) \<in> set (tiles W H s)" and ns: "scatterIntensity s \<le> 0"
    and u: "0 \<le> u" "u < real W" and v: "0 \<le> v" "v < real H"
  shows "list_ex (\<lambda>d. paints W H d (u, v)) (tileDraws W H s x y) \<longleftrightarrow>
      x = nat \<lfloor>floorMod (u - horizontalShift s * xFactor (tileFactors s 0 y)) (real W) / engineTileSize s\<rfloor>
    \<and> y = nat \<lfloor>floorMod (v - verticalShift s * yFactor (tileFactors s x 0)) (real H) / engineTileSize s\<rfloor>"
proof -
  from t have xy: "int x < cols W s" "int y < rows H s" by (simp_all add: tiles_mem)
  have W: "0 < real W" and H: "0 < real H" using u v by linarith+
  define U where "U = floorMod (u - horizontalShift s * xFactor (tileFactors s x y)) (real W)"
  define V where "V = floorMod (v - verticalShift s * yFactor (tileFactors s x y)) (real H)"
  have Ur: "0 \<le> U" "U < real W" and Vr: "0 \<le> V" "V < real H"
    using floorMod_range[OF W] floorMod_range[OF H] by (simp_all add: U_def V_def)
  have "list_ex (\<lambda>d. paints W H d (u, v)) (tileDraws W H s x y)
      \<longleftrightarrow> (\<exists>d \<in> set (tileDraws W H s x y). paints W H d (u, v))"
    by (simp add: list_ex_iff)
  also have "\<dots> \<longleftrightarrow> (srcX s x \<le> U \<and> U < srcX s x + tileW W s x)
                  \<and> (srcY s y \<le> V \<and> V < srcY s y + tileH H s y)"
  proof
    assume "\<exists>d \<in> set (tileDraws W H s x y). paints W H d (u, v)"
    then obtain d where d: "d \<in> set (tileDraws W H s x y)" "paints W H d (u, v)" by blast
    show "(srcX s x \<le> U \<and> U < srcX s x + tileW W s x) \<and> (srcY s y \<le> V \<and> V < srcY s y + tileH H s y)"
      using tile_paint_source[OF t ns d] by (simp add: U_def V_def)
  next
    assume "(srcX s x \<le> U \<and> U < srcX s x + tileW W s x) \<and> (srcY s y \<le> V \<and> V < srcY s y + tileH H s y)"
    then show "\<exists>d \<in> set (tileDraws W H s x y). paints W H d (u, v)"
      using tile_paint_exists[OF t ns u v] by (simp add: U_def V_def)
  qed
  also have "\<dots> \<longleftrightarrow> x = nat \<lfloor>U / engineTileSize s\<rfloor> \<and> y = nat \<lfloor>V / engineTileSize s\<rfloor>"
    using col_lookup[OF Ur xy(1)] row_lookup[OF Vr xy(2)] by simp
  finally show ?thesis
    unfolding U_def V_def using factors_one_index[of s x y] by simp
qed

lemma filter_singleton:
  assumes "distinct xs" "a \<in> set xs" "\<And>b. b \<in> set xs \<Longrightarrow> P b \<longleftrightarrow> b = a"
  shows "filter P xs = [a]"
  using assms
proof (induction xs)
  case Nil
  then show ?case by simp
next
  case (Cons z zs)
  show ?case
  proof (cases "z = a")
    case True
    then have "a \<notin> set zs" using Cons.prems(1) by simp
    then have "filter P zs = []" using Cons.prems(3) by (auto simp: filter_empty_conv)
    then show ?thesis using True Cons.prems(3)[of a] by simp
  next
    case False
    then have "a \<in> set zs" "\<not> P z" using Cons.prems by auto
    then show ?thesis using Cons by simp
  qed
qed

lemma distinct_tiles: "distinct (tiles W H s)"
proof -
  have "concat (map (\<lambda>y. map (\<lambda>x. (x, y)) xs) ys) = map (\<lambda>(y, x). (x, y)) (List.product ys xs)"
    for xs ys :: "nat list"
    by (induction ys) simp_all
  then have "tiles W H s = map (\<lambda>(y, x). (x, y)) (List.product [0 ..< nat (rows H s)] [0 ..< nat (cols W s)])"
    by (simp add: tiles_def)
  moreover have "inj (\<lambda>(y :: nat, x :: nat). (x, y))" by (auto simp: inj_on_def)
  ultimately show ?thesis by (simp add: distinct_map distinct_product inj_on_subset[OF _ subset_UNIV])
qed


lemma writers_horizontal:
  assumes ns: "scatterIntensity s \<le> 0" and vs: "verticalShift s = 0"
    and u: "0 \<le> u" "u < real W" and v: "0 \<le> v" "v < real H"
  shows "writers W H s (u, v) =
     [(nat \<lfloor>floorMod (u - horizontalShift s * xFactor (tileFactors s 0 (nat \<lfloor>v / engineTileSize s\<rfloor>)))
              (real W) / engineTileSize s\<rfloor>,
       nat \<lfloor>v / engineTileSize s\<rfloor>)]"
    (is "_ = [(?x0, ?y0)]")
proof -
  have W: "0 < real W" using u by linarith
  have mem: "(?x0, ?y0) \<in> set (tiles W H s)"
    unfolding tiles_mem cols_def rows_def
    using lookup_in_grid[OF floorMod_range[OF W]] lookup_in_grid[OF v] by simp
  have iff: "(case b of (x, y) \<Rightarrow> list_ex (\<lambda>d. paints W H d (u, v)) (tileDraws W H s x y)) \<longleftrightarrow> b = (?x0, ?y0)"
    if b: "b \<in> set (tiles W H s)" for b
  proof -
    obtain x y where xy: "b = (x, y)" by (cases b)
    have "floorMod v (real H) = v" using v by (rule floorMod_small)
    then show ?thesis
      using tile_writes_iff[OF b[unfolded xy] ns u v] by (auto simp: xy vs)
  qed
  show ?thesis
    unfolding writers_def by (rule filter_singleton[OF distinct_tiles mem iff])
qed

lemma writers_vertical:
  assumes ns: "scatterIntensity s \<le> 0" and hs: "horizontalShift s = 0"
    and u: "0 \<le> u" "u < real W" and v: "0 \<le> v" "v < real H"
  shows "writers W H s (u, v) =
     [(nat \<lfloor>u / engineTileSize s\<rfloor>,
       nat \<lfloor>floorMod (v - verticalShift s * yFactor (tileFactors s (nat \<lfloor>u / engineTileSize s\<rfloor>) 0))
              (real H) / engineTileSize s\<rfloor>)]"
    (is "_ = [(?x0, ?y0)]")
proof -
  have H: "0 < real H" using v by linarith
  have mem: "(?x0, ?y0) \<in> set (tiles W H s)"
    unfolding tiles_mem cols_def rows_def
    using lookup_in_grid[OF floorMod_range[OF H]] lookup_in_grid[OF u] by simp
  have iff: "(case b of (x, y) \<Rightarrow> list_ex (\<lambda>d. paints W H d (u, v)) (tileDraws W H s x y)) \<longleftrightarrow> b = (?x0, ?y0)"
    if b: "b \<in> set (tiles W H s)" for b
  proof -
    obtain x y where xy: "b = (x, y)" by (cases b)
    have "floorMod u (real W) = u" using u by (rule floorMod_small)
    then show ?thesis
      using tile_writes_iff[OF b[unfolded xy] ns u v] by (auto simp: xy hs)
  qed
  show ?thesis
    unfolding writers_def by (rule filter_singleton[OF distinct_tiles mem iff])
qed

lemma one_writer:
  assumes "scatterIntensity s \<le> 0" and "horizontalShift s = 0 \<or> verticalShift s = 0"
    and "0 \<le> u" "u < real W" "0 \<le> v" "v < real H"
  shows "length (writers W H s (u, v)) = 1"
  using assms(2) writers_horizontal[OF assms(1) _ assms(3-6)] writers_vertical[OF assms(1) _ assms(3-6)]
  by auto

section \<open>The pixels of the woven raster\<close>

lemma isWhole_Ints: "isWhole r \<longleftrightarrow> r \<in> \<int>"
  by (auto simp: isWhole_def elim: Ints_cases)

lemma isWhole_floorMod:
  assumes "isWhole a" "isWhole b"
  shows "isWhole (floorMod a b)"
  using assms unfolding isWhole_Ints floorMod_def by (intro Ints_diff Ints_mult Ints_of_int)

lemma plain_factors_unit:
  assumes "pattern s = Plain"
  shows "xFactor (tileFactors s x y) = 1 \<or> xFactor (tileFactors s x y) = -1"
    and "yFactor (tileFactors s x y) = 1 \<or> yFactor (tileFactors s x y) = -1"
  using assms by (simp_all add: tileFactors_def)

lemma tileDraws_aligned:
  assumes t: "(x, y) \<in> set (tiles W H s)" and ns: "scatterIntensity s \<le> 0"
    and pl: "pattern s = Plain"
    and wh: "isWhole (tileSize s)" "isWhole (horizontalShift s)" "isWhole (verticalShift s)"
    and d: "d \<in> set (tileDraws W H s x y)"
  shows "aligned d"
proof -
  from t have xy: "int x < cols W s" "int y < rows H s" by (simp_all add: tiles_mem)
  then have W: "0 < W" and H: "0 < H" using cols_pos_width rows_pos_height by blast+
  have ts: "engineTileSize s \<in> \<int>"
    using wh(1) by (simp add: engineTileSize_def isWhole_Ints max_def)
  have sx: "srcX s x \<in> \<int>" and sy: "srcY s y \<in> \<int>"
    using ts by (simp_all add: srcX_def srcY_def)
  have tw: "tileW W s x \<in> \<int>" and th: "tileH H s y \<in> \<int>"
    using ts sx sy by (simp_all add: tileW_def tileH_def min_def)
  have hx: "horizontalShift s * xFactor (tileFactors s x y) \<in> \<int>"
    using plain_factors_unit(1)[OF pl, of x y] wh(2) by (auto simp: isWhole_Ints)
  have vy: "verticalShift s * yFactor (tileFactors s x y) \<in> \<int>"
    using plain_factors_unit(2)[OF pl, of x y] wh(3) by (auto simp: isWhole_Ints)
  define fx where "fx = floorMod (srcX s x + horizontalShift s * xFactor (tileFactors s x y)) (real W)"
  define fy where "fy = floorMod (srcY s y + verticalShift s * yFactor (tileFactors s x y)) (real H)"
  have fxy: "fx \<in> \<int>" "fy \<in> \<int>"
    using isWhole_floorMod[of _ "real W"] isWhole_floorMod[of _ "real H"] sx sy hx vy
    by (simp_all add: fx_def fy_def isWhole_Ints)
  have fd: "finalDest W H s x y = (fx, fy)"
    using finalDest_no_scatter[OF ns] destOrigin_floorMod[OF W H] by (simp add: fx_def fy_def)
  from d have d': "d \<in> set (drawWrapped W H (srcX s x) (srcY s y) (tileW W s x) (tileH H s y) fx fy)"
    by (simp add: tileDraws_def fd)
  note ds = drawWrapped_set[OF d']
  have "dst_x d \<in> \<int>" using ds(5) fxy(1) by auto
  moreover have "dst_y d \<in> \<int>" using ds(6) fxy(2) by auto
  ultimately show ?thesis
    using sx sy tw th by (simp add: aligned_def isWhole_Ints ds)
qed

lemma weaveDraws_mem:
  "d \<in> set (weaveDraws W H s) \<longleftrightarrow> (\<exists>(x, y) \<in> set (tiles W H s). d \<in> set (tileDraws W H s x y))"
  by (auto simp: weaveDraws_def)

lemma paintAll_some:
  assumes "\<forall>d \<in> set ds. aligned d"
  shows "\<exists>c'. paintAll c src ds = Some c' \<and> cwidth c' = cwidth c \<and> cheight c' = cheight c"
  using assms
proof (induction ds arbitrary: c)
  case Nil
  then show ?case by simp
next
  case (Cons d ds)
  then obtain c1 where c1: "drawImage9 c src d = Some c1" by (simp add: drawImage9_def)
  from Cons.IH[of c1] Cons.prems drawImage9_result(1,2)[OF c1] c1 show ?case by simp
qed

lemma paintAll_untouched:
  assumes "paintAll c src ds = Some c'"
    and "\<forall>d \<in> set ds. \<not> paints (cwidth c) (cheight c) d (real_of_int u, real_of_int v)"
  shows "pixelAt c' (u, v) = pixelAt c (u, v)"
  using assms
proof (induction ds arbitrary: c)
  case Nil
  then show ?case by simp
next
  case (Cons d ds)
  from Cons.prems(1) obtain c1 where c1: "drawImage9 c src d = Some c1" "paintAll c1 src ds = Some c'"
    by (auto split: option.splits)
  note r = drawImage9_result[OF c1(1)]
  have "pixelAt c' (u, v) = pixelAt c1 (u, v)"
    using Cons.IH[OF c1(2)] Cons.prems(2) by (simp add: r(1,2))
  also have "\<dots> = pixelAt c (u, v)" using Cons.prems(2) by (simp add: r(4))
  finally show ?case .
qed

lemma paintAll_painted:
  assumes "paintAll c src ds = Some c'"
    and "\<exists>d \<in> set ds. paints (cwidth c) (cheight c) d (real_of_int u, real_of_int v)"
    and "\<forall>d \<in> set ds. paints (cwidth c) (cheight c) d (real_of_int u, real_of_int v)
           \<longrightarrow> pixelAt src (srcPixel d (u, v)) = Some q"
  shows "pixelAt c' (u, v) = Some q"
  using assms
proof (induction ds arbitrary: c)
  case Nil
  then show ?case by simp
next
  case (Cons d ds)
  from Cons.prems(1) obtain c1 where c1: "drawImage9 c src d = Some c1" "paintAll c1 src ds = Some c'"
    by (auto split: option.splits)
  note r = drawImage9_result[OF c1(1)]
  show ?case
  proof (cases "\<exists>e \<in> set ds. paints (cwidth c) (cheight c) e (real_of_int u, real_of_int v)")
    case True
    then show ?thesis using Cons.IH[OF c1(2)] Cons.prems(3) by (simp add: r(1,2))
  next
    case False
    then have here: "paints (cwidth c) (cheight c) d (real_of_int u, real_of_int v)"
      using Cons.prems(2) by auto
    have "pixelAt c' (u, v) = pixelAt c1 (u, v)"
      using paintAll_untouched[OF c1(2)] False by (simp add: r(1,2))
    also have "\<dots> = Some q" using here Cons.prems(3) by (simp add: r(4))
    finally show ?thesis .
  qed
qed


lemma srcPixel_srcPoint:
  assumes "aligned d"
  shows "real_of_int (fst (srcPixel d (u, v))) = fst (srcPoint d (real_of_int u, real_of_int v))"
    and "real_of_int (snd (srcPixel d (u, v))) = snd (srcPoint d (real_of_int u, real_of_int v))"
proof -
  from assms have a: "real_of_int \<lfloor>src_x d\<rfloor> = src_x d" "real_of_int \<lfloor>src_y d\<rfloor> = src_y d"
    "real_of_int \<lfloor>dst_x d\<rfloor> = dst_x d" "real_of_int \<lfloor>dst_y d\<rfloor> = dst_y d"
    unfolding aligned_def isWhole_def by blast+
  show "real_of_int (fst (srcPixel d (u, v))) = fst (srcPoint d (real_of_int u, real_of_int v))"
    and "real_of_int (snd (srcPixel d (u, v))) = snd (srcPoint d (real_of_int u, real_of_int v))"
    unfolding srcPixel_def srcPoint_def by (simp_all only: a prod.case fst_conv snd_conv of_int_add of_int_diff)
qed

lemma weave_pixel:
  assumes ns: "scatterIntensity s \<le> 0" and pl: "pattern s = Plain"
    and wh: "isWhole (tileSize s)" "isWhole (horizontalShift s)" "isWhole (verticalShift s)"
    and r: "paintAll c3 t3 (weaveDraws W H s) = Some c'"
    and sz: "cwidth c3 = W" "cheight c3 = H"
    and src: "\<And>q. q \<in> positions W H \<Longrightarrow> pixelAt t3 q = Some (f q)"
    and w: "writers W H s (real_of_int u, real_of_int v) = [(x0, y0)]"
  shows "pixelAt c' (u, v) =
     Some (f (\<lfloor>floorMod (real_of_int u - horizontalShift s * xFactor (tileFactors s x0 y0)) (real W)\<rfloor>,
              \<lfloor>floorMod (real_of_int v - verticalShift s * yFactor (tileFactors s x0 y0)) (real H)\<rfloor>))"
    (is "_ = Some (f ?q)")
proof (rule paintAll_painted[OF r])
  have "(x0, y0) \<in> set (writers W H s (real_of_int u, real_of_int v))" by (simp add: w)
  then have t0: "(x0, y0) \<in> set (tiles W H s)"
    and "list_ex (\<lambda>d. paints W H d (real_of_int u, real_of_int v)) (tileDraws W H s x0 y0)"
    by (simp_all add: writers_def)
  then obtain d where d: "d \<in> set (tileDraws W H s x0 y0)" "paints W H d (real_of_int u, real_of_int v)"
    by (auto simp: list_ex_iff)
  from t0 d(1) have "d \<in> set (weaveDraws W H s)" by (auto simp: weaveDraws_mem)
  with d(2) show "\<exists>d \<in> set (weaveDraws W H s). paints (cwidth c3) (cheight c3) d (real_of_int u, real_of_int v)"
    by (auto simp: sz)
next
  show "\<forall>d \<in> set (weaveDraws W H s). paints (cwidth c3) (cheight c3) d (real_of_int u, real_of_int v)
           \<longrightarrow> pixelAt t3 (srcPixel d (u, v)) = Some (f ?q)"
    unfolding sz
  proof (intro ballI impI)
    fix d
    assume d: "d \<in> set (weaveDraws W H s)" and p: "paints W H d (real_of_int u, real_of_int v)"
    from d obtain x y where t: "(x, y) \<in> set (tiles W H s)" and dt: "d \<in> set (tileDraws W H s x y)"
      unfolding weaveDraws_mem by blast
    from t dt p have "(x, y) \<in> set (writers W H s (real_of_int u, real_of_int v))"
      by (auto simp: writers_def list_ex_iff)
    then have xy: "x = x0" "y = y0" by (simp_all add: w)
    from t have ti: "int x < cols W s" "int y < rows H s" by (simp_all add: tiles_mem)
    have al: "aligned d" by (rule tileDraws_aligned[OF t ns pl wh dt])
    note sp = tile_paint_source[OF t ns dt p]
    note px = srcPixel_srcPoint[OF al, of u v]
    have 1: "fst (srcPixel d (u, v)) = fst ?q"
    proof -
      have "\<lfloor>real_of_int (fst (srcPixel d (u, v)))\<rfloor> = fst ?q"
        unfolding px(1) sp(1) by (simp add: xy)
      then show ?thesis by simp
    qed
    have 2: "snd (srcPixel d (u, v)) = snd ?q"
    proof -
      have "\<lfloor>real_of_int (snd (srcPixel d (u, v)))\<rfloor> = snd ?q"
        unfolding px(2) sp(2) by (simp add: xy)
      then show ?thesis by simp
    qed
    have "0 \<le> real_of_int (fst (srcPixel d (u, v)))" "real_of_int (fst (srcPixel d (u, v))) < real W"
      "0 \<le> real_of_int (snd (srcPixel d (u, v)))" "real_of_int (snd (srcPixel d (u, v))) < real H"
      unfolding px
      using sp(3-6) srcX_nonneg[of s x] srcY_nonneg[of s y] tileW_range(3)[OF ti(1)] tileH_range(3)[OF ti(2)]
      by linarith+
    then have "srcPixel d (u, v) \<in> positions W H"
      by (cases "srcPixel d (u, v)") (simp add: positions_def)
    then have "pixelAt t3 (srcPixel d (u, v)) = Some (f (srcPixel d (u, v)))" by (rule src)
    moreover have "srcPixel d (u, v) = ?q" using 1 2 by (simp add: prod_eq_iff)
    ultimately show "pixelAt t3 (srcPixel d (u, v)) = Some (f ?q)" by simp
  qed
qed

section \<open>Slides are rearrangements\<close>

lemma finite_positions: "finite (positions W H)"
  by (simp add: positions_def)

lemma positions_mem: "(u, v) \<in> positions W H \<longleftrightarrow> 0 \<le> u \<and> u < int W \<and> 0 \<le> v \<and> v < int H"
  by (auto simp: positions_def)

lemma floorMod_inj:
  assumes "0 < W" "0 \<le> u" "u < W" "0 \<le> u'" "u' < W"
    and "floorMod (u - \<delta>) W = floorMod (u' - \<delta>) W"
  shows "u = u'"
proof -
  have "u = floorMod (floorMod (0 + \<delta>) W + (floorMod (u - \<delta>) W - 0)) W"
    by (rule wrap_dest_1d[OF assms(1,2,3), symmetric])
  also have "\<dots> = floorMod (floorMod (0 + \<delta>) W + (floorMod (u' - \<delta>) W - 0)) W"
    by (simp only: assms(6))
  also have "\<dots> = u'" by (rule wrap_dest_1d[OF assms(1,4,5)])
  finally show ?thesis .
qed

lemma mset_rearranged:
  assumes "finite P" "inj_on g P" "g ` P \<subseteq> P" "\<And>p. p \<in> P \<Longrightarrow> out p = f (g p)"
  shows "image_mset out (mset_set P) = image_mset f (mset_set P)"
proof -
  have gP: "g ` P = P" using assms(1,3,2) by (rule endo_inj_surj)
  have "image_mset out (mset_set P) = image_mset (\<lambda>p. f (g p)) (mset_set P)"
    using assms(1,4) by (intro image_mset_cong) simp
  also have "\<dots> = image_mset f (image_mset g (mset_set P))"
    by (simp add: multiset.map_comp comp_def)
  also have "image_mset g (mset_set P) = mset_set (g ` P)"
    using assms(2) by (rule image_mset_mset_set)
  finally show ?thesis by (simp add: gP)
qed

lemma floor_in_range:
  assumes "0 \<le> a" "a < real n"
  shows "0 \<le> \<lfloor>a\<rfloor>" "\<lfloor>a\<rfloor> < int n"
  using assms by (simp_all add: floor_less_iff)

lemma rowSlide_positions:
  assumes "p \<in> positions W H"
  shows "rowSlide W s p \<in> positions W H"
proof -
  obtain u v where p: "p = (u, v)" by (cases p)
  from assms have W: "0 < real W" by (auto simp: p positions_mem)
  show ?thesis
    using assms floor_in_range[OF floorMod_range[OF W]]
    by (simp add: p rowSlide_def positions_mem)
qed

lemma columnSlide_positions:
  assumes "p \<in> positions W H"
  shows "columnSlide H s p \<in> positions W H"
proof -
  obtain u v where p: "p = (u, v)" by (cases p)
  from assms have H: "0 < real H" by (auto simp: p positions_mem)
  show ?thesis
    using assms floor_in_range[OF floorMod_range[OF H]]
    by (simp add: p columnSlide_def positions_mem)
qed

lemma plain_shift_whole:
  assumes "pattern s = Plain" "isWhole (horizontalShift s)" "isWhole (verticalShift s)"
  shows "isWhole (horizontalShift s * xFactor (tileFactors s x y))"
    and "isWhole (verticalShift s * yFactor (tileFactors s x y))"
  using plain_factors_unit[OF assms(1), of x y] assms(2,3) by (auto simp: isWhole_Ints)

lemma floor_floorMod_whole:
  assumes "isWhole \<delta>"
  shows "real_of_int \<lfloor>floorMod (real_of_int u - \<delta>) (real W)\<rfloor> = floorMod (real_of_int u - \<delta>) (real W)"
proof -
  have "isWhole (floorMod (real_of_int u - \<delta>) (real W))"
    using assms by (intro isWhole_floorMod) (simp_all add: isWhole_Ints)
  then show ?thesis by (simp only: isWhole_def)
qed

lemma rowSlide_inj:
  assumes "pattern s = Plain" "isWhole (horizontalShift s)" "isWhole (verticalShift s)"
  shows "inj_on (rowSlide W s) (positions W H)"
proof (rule inj_onI)
  fix p p' assume p: "p \<in> positions W H" and p': "p' \<in> positions W H"
    and e: "rowSlide W s p = rowSlide W s p'"
  obtain u v where pv: "p = (u, v)" by (cases p)
  obtain u' v' where pv': "p' = (u', v')" by (cases p')
  from e have v: "v = v'" by (simp add: pv pv' rowSlide_def)
  define \<delta> where "\<delta> = horizontalShift s * xFactor (tileFactors s 0 (nat \<lfloor>real_of_int v / engineTileSize s\<rfloor>))"
  have wd: "isWhole \<delta>" unfolding \<delta>_def by (rule plain_shift_whole(1)[OF assms])
  from e have fl: "\<lfloor>floorMod (real_of_int u - \<delta>) (real W)\<rfloor> = \<lfloor>floorMod (real_of_int u' - \<delta>) (real W)\<rfloor>"
    by (simp add: pv pv' rowSlide_def v \<delta>_def)
  have "floorMod (real_of_int u - \<delta>) (real W) = real_of_int \<lfloor>floorMod (real_of_int u - \<delta>) (real W)\<rfloor>"
    by (rule floor_floorMod_whole[OF wd, symmetric])
  also have "\<dots> = real_of_int \<lfloor>floorMod (real_of_int u' - \<delta>) (real W)\<rfloor>"
    by (simp only: fl)
  also have "\<dots> = floorMod (real_of_int u' - \<delta>) (real W)"
    by (rule floor_floorMod_whole[OF wd])
  finally have eq: "floorMod (real_of_int u - \<delta>) (real W) = floorMod (real_of_int u' - \<delta>) (real W)" .
  have rg: "0 < real W" "0 \<le> real_of_int u" "real_of_int u < real W"
    "0 \<le> real_of_int u'" "real_of_int u' < real W"
    using p p' by (auto simp: pv pv' positions_mem)
  have "real_of_int u = real_of_int u'" by (rule floorMod_inj[OF rg eq])
  then show "p = p'" by (simp add: pv pv' v)
qed

lemma columnSlide_inj:
  assumes "pattern s = Plain" "isWhole (horizontalShift s)" "isWhole (verticalShift s)"
  shows "inj_on (columnSlide H s) (positions W H)"
proof (rule inj_onI)
  fix p p' assume p: "p \<in> positions W H" and p': "p' \<in> positions W H"
    and e: "columnSlide H s p = columnSlide H s p'"
  obtain u v where pv: "p = (u, v)" by (cases p)
  obtain u' v' where pv': "p' = (u', v')" by (cases p')
  from e have u: "u = u'" by (simp add: pv pv' columnSlide_def)
  define \<delta> where "\<delta> = verticalShift s * yFactor (tileFactors s (nat \<lfloor>real_of_int u / engineTileSize s\<rfloor>) 0)"
  have wd: "isWhole \<delta>" unfolding \<delta>_def by (rule plain_shift_whole(2)[OF assms])
  from e have fl: "\<lfloor>floorMod (real_of_int v - \<delta>) (real H)\<rfloor> = \<lfloor>floorMod (real_of_int v' - \<delta>) (real H)\<rfloor>"
    by (simp add: pv pv' columnSlide_def u \<delta>_def)
  have "floorMod (real_of_int v - \<delta>) (real H) = real_of_int \<lfloor>floorMod (real_of_int v - \<delta>) (real H)\<rfloor>"
    by (rule floor_floorMod_whole[OF wd, symmetric])
  also have "\<dots> = real_of_int \<lfloor>floorMod (real_of_int v' - \<delta>) (real H)\<rfloor>"
    by (simp only: fl)
  also have "\<dots> = floorMod (real_of_int v' - \<delta>) (real H)"
    by (rule floor_floorMod_whole[OF wd])
  finally have eq: "floorMod (real_of_int v - \<delta>) (real H) = floorMod (real_of_int v' - \<delta>) (real H)" .
  have rg: "0 < real H" "0 \<le> real_of_int v" "real_of_int v < real H"
    "0 \<le> real_of_int v'" "real_of_int v' < real H"
    using p p' by (auto simp: pv pv' positions_mem)
  have "real_of_int v = real_of_int v'" by (rule floorMod_inj[OF rg eq])
  then show "p = p'" by (simp add: pv pv' u)
qed

section \<open>Pixel conservation under a shift along one axis\<close>

lemma prepared_sizes:
  "cwidth (clearRect (resizeTo c W H) W H) = W" "cheight (clearRect (resizeTo c W H) W H) = H"
  by (simp_all add: clearRect_def resizeTo_fields)

lemma weave_pixel_horizontal:
  assumes ns: "scatterIntensity s \<le> 0" and pl: "pattern s = Plain" and vs: "verticalShift s = 0"
    and wh: "isWhole (tileSize s)" "isWhole (horizontalShift s)"
    and r: "paintAll c3 t3 (weaveDraws W H s) = Some c'"
    and sz: "cwidth c3 = W" "cheight c3 = H"
    and src: "\<And>q. q \<in> positions W H \<Longrightarrow> pixelAt t3 q = Some (f q)"
    and p: "p \<in> positions W H"
  shows "pixelAt c' p = Some (f (rowSlide W s p))"
proof -
  obtain u v where uv: "p = (u, v)" by (cases p)
  from p have u: "0 \<le> real_of_int u" "real_of_int u < real W"
    and v: "0 \<le> real_of_int v" "real_of_int v < real H"
    by (simp_all add: uv positions_mem)
  have wv: "isWhole (verticalShift s)" by (simp add: vs isWhole_def)
  note w = writers_horizontal[OF ns vs u v]
  have "\<lfloor>floorMod (real_of_int v) (real H)\<rfloor> = v"
    using floorMod_small[OF v] by simp
  moreover have "xFactor (tileFactors s
        (nat \<lfloor>floorMod (real_of_int u - horizontalShift s * xFactor (tileFactors s 0 (nat \<lfloor>real_of_int v / engineTileSize s\<rfloor>)))
              (real W) / engineTileSize s\<rfloor>)
        (nat \<lfloor>real_of_int v / engineTileSize s\<rfloor>))
      = xFactor (tileFactors s 0 (nat \<lfloor>real_of_int v / engineTileSize s\<rfloor>))"
    by (rule factors_one_index(1))
  ultimately show ?thesis
    using weave_pixel[OF ns pl wh wv r sz src w] by (simp add: uv vs rowSlide_def)
qed

lemma weave_pixel_vertical:
  assumes ns: "scatterIntensity s \<le> 0" and pl: "pattern s = Plain" and hs: "horizontalShift s = 0"
    and wh: "isWhole (tileSize s)" "isWhole (verticalShift s)"
    and r: "paintAll c3 t3 (weaveDraws W H s) = Some c'"
    and sz: "cwidth c3 = W" "cheight c3 = H"
    and src: "\<And>q. q \<in> positions W H \<Longrightarrow> pixelAt t3 q = Some (f q)"
    and p: "p \<in> positions W H"
  shows "pixelAt c' p = Some (f (columnSlide H s p))"
proof -
  obtain u v where uv: "p = (u, v)" by (cases p)
  from p have u: "0 \<le> real_of_int u" "real_of_int u < real W"
    and v: "0 \<le> real_of_int v" "real_of_int v < real H"
    by (simp_all add: uv positions_mem)
  have wu: "isWhole (horizontalShift s)" by (simp add: hs isWhole_def)
  note w = writers_vertical[OF ns hs u v]
  have "\<lfloor>floorMod (real_of_int u) (real W)\<rfloor> = u"
    using floorMod_small[OF u] by simp
  moreover have "yFactor (tileFactors s
        (nat \<lfloor>real_of_int u / engineTileSize s\<rfloor>)
        (nat \<lfloor>floorMod (real_of_int v - verticalShift s * yFactor (tileFactors s (nat \<lfloor>real_of_int u / engineTileSize s\<rfloor>) 0))
              (real H) / engineTileSize s\<rfloor>))
      = yFactor (tileFactors s (nat \<lfloor>real_of_int u / engineTileSize s\<rfloor>) 0)"
    by (rule factors_one_index(2))
  ultimately show ?thesis
    using weave_pixel[OF ns pl wh(1) wu wh(2) r sz src w] by (simp add: uv hs columnSlide_def)
qed

lemma weaveDraws_aligned:
  assumes "scatterIntensity s \<le> 0" "pattern s = Plain"
    "isWhole (tileSize s)" "isWhole (horizontalShift s)" "isWhole (verticalShift s)"
  shows "\<forall>d \<in> set (weaveDraws W H s). aligned d"
  using tileDraws_aligned[OF _ assms] by (auto simp: weaveDraws_mem)

lemma conserve_pixels:
  assumes pl: "pattern s = Plain" and ns: "scatterIntensity s \<le> 0"
    and ax: "horizontalShift s = 0 \<or> verticalShift s = 0"
    and wh: "isWhole (tileSize s)" "isWhole (horizontalShift s)" "isWhole (verticalShift s)"
    and cx: "context2d tempCanvas"
  shows "\<exists>c t. renderWeave ctx img s tempCanvas = Some (c, t)
      \<and> cwidth c = iwidth img \<and> cheight c = iheight img
      \<and> image_mset (pixelAt c) (mset_set (positions (iwidth img) (iheight img)))
        = image_mset (\<lambda>p. Some (ipixels img p)) (mset_set (positions (iwidth img) (iheight img)))"
proof -
  define W H where "W = iwidth img" and "H = iheight img"
  define c3 where "c3 = clearRect (resizeTo ctx W H) W H"
  define t3 where "t3 = drawImage3 (clearRect (resizeTo tempCanvas W H) W H) img"
  have src: "pixelAt t3 q = Some (ipixels img q)" if "q \<in> positions W H" for q
    using that pixelAt_image_drawn[of tempCanvas img] by (simp add: t3_def W_def H_def)
  have sz: "cwidth c3 = W" "cheight c3 = H" by (simp_all add: c3_def prepared_sizes)
  show ?thesis
  proof (cases "fastPath s")
    case True
    have rw: "renderWeave ctx img s tempCanvas = Some (drawImage3 c3 img, t3)"
      using True cx by (simp add: renderWeave_def Let_def resizeTo_fields c3_def t3_def W_def H_def)
    have px: "pixelAt (drawImage3 c3 img) p = Some (ipixels img p)" if "p \<in> positions W H" for p
      using that pixelAt_image_drawn[of ctx img] by (simp add: c3_def W_def H_def)
    have "image_mset (pixelAt (drawImage3 c3 img)) (mset_set (positions W H))
        = image_mset (\<lambda>p. Some (ipixels img p)) (mset_set (positions W H))"
      using px by (intro image_mset_cong) (simp add: finite_positions)
    moreover have "cwidth (drawImage3 c3 img) = W" "cheight (drawImage3 c3 img) = H"
      by (simp_all add: drawImage3_def sz)
    ultimately show ?thesis using rw by (simp add: W_def H_def)
  next
    case False
    note al = weaveDraws_aligned[OF ns pl wh, where W = W and H = H]
    from paintAll_some[OF al, where c = c3 and src = t3]
    obtain c' where c': "paintAll c3 t3 (weaveDraws W H s) = Some c'"
      and sz': "cwidth c' = W" "cheight c' = H"
      by (auto simp: sz)
    have rw: "renderWeave ctx img s tempCanvas = Some (c', t3)"
      using False cx c' by (simp add: renderWeave_def Let_def resizeTo_fields c3_def t3_def W_def H_def)
    have "image_mset (pixelAt c') (mset_set (positions W H))
        = image_mset (\<lambda>p. Some (ipixels img p)) (mset_set (positions W H))"
      using ax
    proof
      assume hs: "horizontalShift s = 0"
      show ?thesis
      proof (rule mset_rearranged[OF finite_positions columnSlide_inj[OF pl wh(2,3)]])
        show "columnSlide H s ` positions W H \<subseteq> positions W H"
          using columnSlide_positions by blast
        show "pixelAt c' p = Some (ipixels img (columnSlide H s p))" if "p \<in> positions W H" for p
          by (rule weave_pixel_vertical[OF ns pl hs wh(1,3) c' sz src that])
      qed
    next
      assume vs: "verticalShift s = 0"
      show ?thesis
      proof (rule mset_rearranged[OF finite_positions rowSlide_inj[OF pl wh(2,3)]])
        show "rowSlide W s ` positions W H \<subseteq> positions W H"
          using rowSlide_positions by blast
        show "pixelAt c' p = Some (ipixels img (rowSlide W s p))" if "p \<in> positions W H" for p
          by (rule weave_pixel_horizontal[OF ns pl vs wh(1,2) c' sz src that])
      qed
    qed
    then show ?thesis using rw sz' by (simp add: W_def H_def)
  qed
qed

section \<open>Pixel conservation\<close>

lemma weave11_tiles: "tiles 4 4 weave11 = [(0, 0), (1, 0), (0, 1), (1, 1)]"
proof -
  have "[0 ..< 2] = [0, Suc 0]" by (simp add: numeral_2_eq_2)
  then show ?thesis
    by (simp add: tiles_def cols_def rows_def engineTileSize_def weave11_def)
qed

lemma weave11_finalDest:
  "finalDest 4 4 weave11 0 0 = (1, 1)" "finalDest 4 4 weave11 1 0 = (3, 3)"
  "finalDest 4 4 weave11 0 1 = (3, 3)" "finalDest 4 4 weave11 1 1 = (1, 1)"
proof -
  have ns: "scatterIntensity weave11 \<le> 0" by (simp add: weave11_def)
  show "finalDest 4 4 weave11 0 0 = (1, 1)" "finalDest 4 4 weave11 1 0 = (3, 3)"
    "finalDest 4 4 weave11 0 1 = (3, 3)" "finalDest 4 4 weave11 1 1 = (1, 1)"
    unfolding finalDest_no_scatter[OF ns]
    by (simp_all add: destOrigin_def tileFactors_def srcX_def srcY_def engineTileSize_def
        weave11_def jsmod_def trunc_def)
qed

lemma weave11_tileDraws:
  "tileDraws 4 4 weave11 0 0 = [\<lparr>src_x = 0, src_y = 0, ext_w = 2, ext_h = 2, dst_x = 1, dst_y = 1\<rparr>]"
  "tileDraws 4 4 weave11 1 0 =
     [\<lparr>src_x = 2, src_y = 0, ext_w = 2, ext_h = 2, dst_x = 3, dst_y = 3\<rparr>,
      \<lparr>src_x = 2, src_y = 0, ext_w = 2, ext_h = 2, dst_x = -1, dst_y = 3\<rparr>,
      \<lparr>src_x = 2, src_y = 0, ext_w = 2, ext_h = 2, dst_x = 3, dst_y = -1\<rparr>,
      \<lparr>src_x = 2, src_y = 0, ext_w = 2, ext_h = 2, dst_x = -1, dst_y = -1\<rparr>]"
  "tileDraws 4 4 weave11 0 1 =
     [\<lparr>src_x = 0, src_y = 2, ext_w = 2, ext_h = 2, dst_x = 3, dst_y = 3\<rparr>,
      \<lparr>src_x = 0, src_y = 2, ext_w = 2, ext_h = 2, dst_x = -1, dst_y = 3\<rparr>,
      \<lparr>src_x = 0, src_y = 2, ext_w = 2, ext_h = 2, dst_x = 3, dst_y = -1\<rparr>,
      \<lparr>src_x = 0, src_y = 2, ext_w = 2, ext_h = 2, dst_x = -1, dst_y = -1\<rparr>]"
  "tileDraws 4 4 weave11 1 1 = [\<lparr>src_x = 2, src_y = 2, ext_w = 2, ext_h = 2, dst_x = 1, dst_y = 1\<rparr>]"
  unfolding tileDraws_def weave11_finalDest
  by (simp_all add: drawWrapped_def srcX_def srcY_def tileW_def tileH_def engineTileSize_def weave11_def)

lemma weave11_writers:
  "writers 4 4 weave11 (1, 1) = [(0, 0), (1, 1)]" "writers 4 4 weave11 (0, 1) = []"
  unfolding writers_def weave11_tiles
  by (simp_all add: weave11_tileDraws[unfolded One_nat_def] weave11_tileDraws paints_def)


lemma unwritten_stays_cleared:
  assumes pl: "pattern s = Plain" and ns: "scatterIntensity s \<le> 0"
    and wh: "isWhole (tileSize s)" "isWhole (horizontalShift s)" "isWhole (verticalShift s)"
    and cx: "context2d tempCanvas" and nf: "\<not> fastPath s"
    and w: "writers (iwidth img) (iheight img) s (real_of_int u, real_of_int v) = []"
  shows "renderedPixel ctx img s tempCanvas (u, v) = Some None"
proof -
  define W H where "W = iwidth img" and "H = iheight img"
  define c3 where "c3 = clearRect (resizeTo ctx W H) W H"
  define t3 where "t3 = drawImage3 (clearRect (resizeTo tempCanvas W H) W H) img"
  have sz: "cwidth c3 = W" "cheight c3 = H" by (simp_all add: c3_def prepared_sizes)
  note al = weaveDraws_aligned[OF ns pl wh, where W = W and H = H]
  from paintAll_some[OF al, where c = c3 and src = t3]
  obtain c' where c': "paintAll c3 t3 (weaveDraws W H s) = Some c'" by auto
  have rw: "renderWeave ctx img s tempCanvas = Some (c', t3)"
    using nf cx c' by (simp add: renderWeave_def Let_def resizeTo_fields c3_def t3_def W_def H_def)
  have none: "\<forall>d \<in> set (weaveDraws W H s). \<not> paints (cwidth c3) (cheight c3) d (real_of_int u, real_of_int v)"
  proof
    fix d assume "d \<in> set (weaveDraws W H s)"
    then obtain x y where t: "(x, y) \<in> set (tiles W H s)" and dt: "d \<in> set (tileDraws W H s x y)"
      unfolding weaveDraws_mem by blast
    show "\<not> paints (cwidth c3) (cheight c3) d (real_of_int u, real_of_int v)"
    proof
      assume "paints (cwidth c3) (cheight c3) d (real_of_int u, real_of_int v)"
      with t dt have "(x, y) \<in> set (writers W H s (real_of_int u, real_of_int v))"
        by (auto simp: writers_def list_ex_iff sz)
      then show False using w by (simp add: W_def H_def)
    qed
  qed
  have "pixelAt c' (u, v) = pixelAt c3 (u, v)" by (rule paintAll_untouched[OF c' none])
  also have "\<dots> = None" using shown_cleared[of ctx W H] by (simp add: c3_def shown_def)
  finally show ?thesis by (simp add: renderedPixel_def rw)
qed

text \<open>
  Claim C7. With the plain pattern and no scatter, for every source raster and every shift
  configuration each destination location is written by exactly one tile's composite (the
  tiles cover the raster with no overlap and no gap), so the multiset of pixel values is
  preserved. This is what the application announces (shifts displace pixels without
  deletion). The engine does not achieve it when both shifts are at work, since the
  horizontal factor follows the parity of the row and the vertical factor the parity of
  the column. On a 4 by 4 raster with tile size 2 and both shifts 1, tiles \<open>(0, 0)\<close> and
  \<open>(1, 1)\<close> both land on origin \<open>(1, 1)\<close> and tiles \<open>(1, 0)\<close> and \<open>(0, 1)\<close> both land
  on origin \<open>(3, 3)\<close>: the location \<open>(1, 1)\<close> is written twice, the location \<open>(0, 1)\<close>
  is written by no tile and stays cleared in the output.
\<close>

theorem two_axis_weave_drops_tiles:
  "pattern weave11 = Plain \<and> scatterIntensity weave11 = 0
   \<and> writers 4 4 weave11 (1, 1) = [(0, 0), (1, 1)]
   \<and> writers 4 4 weave11 (0, 1) = []
   \<and> renderedPixel blankCanvas numbered4 weave11 blankCanvas (0, 1) = Some None"
proof -
  have 1: "pattern weave11 = Plain" "scatterIntensity weave11 \<le> 0"
    "isWhole (tileSize weave11)" "isWhole (horizontalShift weave11)" "isWhole (verticalShift weave11)"
    "\<not> fastPath weave11"
    by (simp_all add: weave11_def isWhole_def fastPath_def)
  have 2: "context2d blankCanvas" by (simp add: blankCanvas_def)
  have 3: "writers (iwidth numbered4) (iheight numbered4) weave11 (real_of_int 0, real_of_int 1) = []"
    using weave11_writers(2) by (simp add: numbered4_def)
  from unwritten_stays_cleared[OF 1(1-5) 2 1(6) 3]
  have "renderedPixel blankCanvas numbered4 weave11 blankCanvas (0, 1) = Some None" .
  then show ?thesis using weave11_writers by (simp add: weave11_def)
qed

text \<open>
  What does hold: with the plain pattern, no scatter and at least one of the two shifts
  equal to 0 (the other one arbitrary), every point of the raster is painted by exactly
  one tile's composite. When in addition the tile size and the shifts are whole numbers,
  so that every tile is drawn on the pixel grid, the render yields a destination of the
  size of the image whose pixels are those of the source rearranged: the multiset of
  pixel values is preserved.
\<close>

theorem single_axis_weave_conserves_pixels:
  assumes "pattern s = Plain" and "scatterIntensity s = 0"
    and "horizontalShift s = 0 \<or> verticalShift s = 0"
  shows "(\<forall>u v. 0 \<le> u \<and> u < real W \<and> 0 \<le> v \<and> v < real H \<longrightarrow> length (writers W H s (u, v)) = 1)
     \<and> (isWhole (tileSize s) \<and> isWhole (horizontalShift s) \<and> isWhole (verticalShift s)
          \<and> context2d tempCanvas \<longrightarrow>
         (\<exists>c t. renderWeave ctx img s tempCanvas = Some (c, t)
            \<and> cwidth c = iwidth img \<and> cheight c = iheight img
            \<and> image_mset (pixelAt c) (mset_set (positions (iwidth img) (iheight img)))
              = image_mset (\<lambda>p. Some (ipixels img p)) (mset_set (positions (iwidth img) (iheight img)))))"
proof -
  have ns: "scatterIntensity s \<le> 0" using assms(2) by simp
  show ?thesis
    using one_writer[OF ns assms(3), of _ W _ H] conserve_pixels[OF assms(1) ns assms(3)]
    by blast
qed

theorem single_axis_weave_conserves_pixels_example:
  "pattern weave10 = Plain \<and> scatterIntensity weave10 = 0 \<and> verticalShift weave10 = 0
   \<and> length (writers 4 4 weave10 (1 / 2, 3)) = 1
   \<and> (\<exists>c t. renderWeave staleCanvas numbered4 weave10 blankCanvas = Some (c, t)
            \<and> cwidth c = 4 \<and> cheight c = 4
            \<and> image_mset (pixelAt c) (mset_set (positions 4 4))
              = image_mset (\<lambda>p. Some (ipixels numbered4 p)) (mset_set (positions 4 4)))"
proof -
  have h: "pattern weave10 = Plain" "scatterIntensity weave10 = 0"
    "horizontalShift weave10 = 0 \<or> verticalShift weave10 = 0"
    by (simp_all add: weave10_def)
  have w: "isWhole (tileSize weave10) \<and> isWhole (horizontalShift weave10) \<and> isWhole (verticalShift weave10)
          \<and> context2d blankCanvas"
    by (simp add: weave10_def isWhole_def blankCanvas_def)
  note t = single_axis_weave_conserves_pixels[OF h, where W = 4 and H = 4 and tempCanvas = blankCanvas
      and ctx = staleCanvas and img = numbered4]
  from t have "length (writers 4 4 weave10 (1 / 2, 3)) = 1" by simp
  moreover from t w have "\<exists>c t. renderWeave staleCanvas numbered4 weave10 blankCanvas = Some (c, t)
            \<and> cwidth c = 4 \<and> cheight c = 4
            \<and> image_mset (pixelAt c) (mset_set (positions 4 4))
              = image_mset (\<lambda>p. Some (ipixels numbered4 p)) (mset_set (positions 4 4))"
    by (simp add: numbered4_def)
  ultimately show ?thesis using h(1,2) by (simp add: weave10_def)
qed

section \<open>Rounding to the nearest double\<close>

lemma pow2_powr: "pow2 e = 2 powr (of_int e)"
  by (simp add: pow2_def powr_int)

lemma pow2_pos: "0 < pow2 e"
  by (simp add: pow2_def)

lemma binade_eq:
  assumes "pow2 k \<le> \<bar>x\<bar>" "\<bar>x\<bar> < pow2 (k + 1)"
  shows "binade x = k"
proof -
  have "0 < \<bar>x\<bar>" using assms(1) pow2_pos[of k] by linarith
  then show ?thesis
    unfolding binade_def using assms by (simp add: floor_log_eq_powr_iff pow2_powr)
qed

lemma roundEven_eq:
  assumes "of_int n \<le> x" "x < of_int n + 1 / 2"
  shows "roundEven x = n"
proof -
  have "\<lfloor>x\<rfloor> = n" using assms by linarith
  then show ?thesis using assms by (simp add: roundEven_def Let_def)
qed

lemma roundEven_up:
  assumes "of_int n - 1 / 2 < x" "x \<le> of_int n"
  shows "roundEven x = n"
proof (cases "x = of_int n")
  case True
  then show ?thesis by (simp add: roundEven_def Let_def)
next
  case False
  then have "\<lfloor>x\<rfloor> = n - 1" using assms by linarith
  then show ?thesis using assms False by (simp add: roundEven_def Let_def)
qed

lemma roundDouble_in_binade:
  assumes "pow2 k \<le> \<bar>x\<bar>" "\<bar>x\<bar> < pow2 (k + 1)" "- 1022 \<le> k"
  shows "roundDouble x = of_int (roundEven (x / pow2 (k - 52))) * pow2 (k - 52)"
proof -
  have "x \<noteq> 0" using assms(1) pow2_pos[of k] by auto
  then show ?thesis using binade_eq[OF assms(1,2)] assms(3) by (simp add: roundDouble_def Let_def max_def)
qed

lemma pow2_add: "pow2 (a + b) = pow2 a * pow2 b"
  by (simp add: pow2_powr powr_add)

lemma pow2_mono: "a \<le> b \<Longrightarrow> pow2 a \<le> pow2 b"
  by (simp add: pow2_powr)

lemma pow2_nat: "0 \<le> e \<Longrightarrow> pow2 e = of_int (2 ^ nat e)"
  by (simp add: pow2_def)

lemma binade_bounds:
  assumes "x \<noteq> 0"
  shows "pow2 (binade x) \<le> \<bar>x\<bar>" "\<bar>x\<bar> < pow2 (binade x + 1)"
proof -
  have "0 < \<bar>x\<bar>" using assms by simp
  then have "2 powr (of_int (binade x)) \<le> \<bar>x\<bar> \<and> \<bar>x\<bar> < 2 powr (of_int (binade x + 1))"
    using floor_log_eq_powr_iff[of "\<bar>x\<bar>" 2 "binade x"] by (simp add: binade_def)
  then show "pow2 (binade x) \<le> \<bar>x\<bar>" "\<bar>x\<bar> < pow2 (binade x + 1)"
    by (simp_all add: pow2_powr)
qed

lemma roundEven_cases: "roundEven y = \<lfloor>y\<rfloor> \<and> y - of_int \<lfloor>y\<rfloor> \<le> 1 / 2
    \<or> roundEven y = \<lfloor>y\<rfloor> + 1 \<and> 1 / 2 \<le> y - of_int \<lfloor>y\<rfloor>"
  by (simp add: roundEven_def Let_def)

lemma roundEven_nearest: "\<bar>of_int (roundEven y) - y\<bar> \<le> \<bar>of_int k - y\<bar>"
proof -
  consider "k \<le> \<lfloor>y\<rfloor>" | "\<lfloor>y\<rfloor> + 1 \<le> k" by linarith
  then show ?thesis
  proof cases
    case 1
    then have "of_int k \<le> (of_int \<lfloor>y\<rfloor> :: real)" by simp
    then show ?thesis using roundEven_cases[of y] by (auto; linarith)
  next
    case 2
    then have "(of_int \<lfloor>y\<rfloor> :: real) + 1 \<le> of_int k" by linarith
    then show ?thesis using roundEven_cases[of y] by (auto; linarith)
  qed
qed

lemma roundEven_half: "\<bar>of_int (roundEven y) - y\<bar> \<le> 1 / 2"
  using roundEven_cases[of y] by (auto; linarith)


lemma roundDouble_grid:
  assumes "x \<noteq> 0"
  shows "roundDouble x = of_int (roundEven (x / pow2 (max (binade x) (- 1022) - 52)))
           * pow2 (max (binade x) (- 1022) - 52)"
  using assms by (simp add: roundDouble_def Let_def)

lemma roundDouble_zero: "roundDouble 0 = 0"
  by (simp add: roundDouble_def)

lemma roundDouble_nearest_grid:
  assumes "x \<noteq> 0"
  shows "\<bar>roundDouble x - x\<bar> \<le> \<bar>of_int k * pow2 (max (binade x) (- 1022) - 52) - x\<bar>"
proof -
  define g where "g = pow2 (max (binade x) (- 1022) - 52)"
  have g: "0 < g" by (simp add: g_def pow2_pos)
  have x: "x = x / g * g" using g by simp
  have "\<bar>of_int (roundEven (x / g)) - x / g\<bar> * g \<le> \<bar>of_int k - x / g\<bar> * g"
    using roundEven_nearest[of "x / g" k] g by (simp add: mult_right_mono)
  moreover have "\<bar>of_int j - x / g\<bar> * g = \<bar>of_int j * g - x\<bar>" for j :: int
  proof -
    have "\<bar>of_int j - x / g\<bar> * g = \<bar>(of_int j - x / g) * g\<bar>" using g by (simp add: abs_mult)
    also have "(of_int j - x / g) * g = of_int j * g - x" using g by (simp add: algebra_simps)
    finally show ?thesis .
  qed
  ultimately have "\<bar>of_int (roundEven (x / g)) * g - x\<bar> \<le> \<bar>of_int k * g - x\<bar>" by simp
  then show ?thesis unfolding roundDouble_grid[OF assms] g_def .
qed

lemma roundDouble_error: "\<bar>roundDouble x - x\<bar> \<le> pow2 (max (binade x) (- 1022) - 52) / 2"
proof (cases "x = 0")
  case True
  then show ?thesis using pow2_pos[of "max (binade x) (- 1022) - 52"] by (simp add: roundDouble_zero)
next
  case False
  define g where "g = pow2 (max (binade x) (- 1022) - 52)"
  have g: "0 < g" by (simp add: g_def pow2_pos)
  have "\<bar>of_int (roundEven (x / g)) - x / g\<bar> * g \<le> 1 / 2 * g"
    using roundEven_half[of "x / g"] g by (simp add: mult_right_mono)
  moreover have "\<bar>of_int (roundEven (x / g)) - x / g\<bar> * g = \<bar>of_int (roundEven (x / g)) * g - x\<bar>"
  proof -
    have "\<bar>of_int (roundEven (x / g)) - x / g\<bar> * g = \<bar>(of_int (roundEven (x / g)) - x / g) * g\<bar>"
      using g by (simp add: abs_mult)
    also have "(of_int (roundEven (x / g)) - x / g) * g = of_int (roundEven (x / g)) * g - x"
      using g by (simp add: algebra_simps)
    finally show ?thesis .
  qed
  ultimately have "\<bar>of_int (roundEven (x / g)) * g - x\<bar> \<le> g / 2" by simp
  then show ?thesis unfolding roundDouble_grid[OF False] g_def .
qed

lemma roundDouble_relative: "\<bar>roundDouble x - x\<bar> \<le> \<bar>x\<bar> / 2 ^ 53 + 1 / 2 ^ 1075"
proof (cases "x = 0")
  case True
  then show ?thesis by (simp add: roundDouble_zero)
next
  case False
  show ?thesis
  proof (cases "- 1022 \<le> binade x")
    case True
    then have e: "max (binade x) (- 1022) - 52 = binade x + (- 52)" by simp
    have "pow2 (binade x + (- 52)) = pow2 (binade x) * pow2 (- 52)" by (rule pow2_add)
    also have "\<dots> \<le> \<bar>x\<bar> * pow2 (- 52)"
      using binade_bounds(1)[OF False] pow2_pos[of "- 52"] by (simp add: mult_right_mono)
    finally have "pow2 (max (binade x) (- 1022) - 52) / 2 \<le> \<bar>x\<bar> * pow2 (- 52) / 2"
      unfolding e by simp
    also have "\<dots> = \<bar>x\<bar> / 2 ^ 53" by (simp add: pow2_def)
    finally show ?thesis using roundDouble_error[of x] by simp
  next
    case False
    then have e: "max (binade x) (- 1022) - 52 = - 1074" by simp
    have "\<bar>roundDouble x - x\<bar> \<le> pow2 (- 1074) / 2"
      using roundDouble_error[of x] unfolding e .
    also have "\<dots> = 1 / 2 ^ 1075" by (simp add: pow2_def)
    also have "\<dots> \<le> \<bar>x\<bar> / 2 ^ 53 + 1 / 2 ^ 1075" by simp
    finally show ?thesis .
  qed
qed

lemma roundDouble_doubles: "roundDouble x \<in> doubles"
proof (cases "x = 0")
  case True
  have "(0::real) = of_int 0 * pow2 0" by simp
  then show ?thesis unfolding True roundDouble_zero doubles_def by force
next
  case False
  define e where "e = max (binade x) (- 1022) - 52"
  define g where "g = pow2 e"
  have g: "0 < g" by (simp add: g_def pow2_pos)
  have lt: "\<bar>x\<bar> < pow2 (e + 53)"
  proof -
    have "pow2 (binade x + 1) \<le> pow2 (e + 53)" by (rule pow2_mono) (simp add: e_def)
    then show ?thesis using binade_bounds(2)[OF False] by simp
  qed
  have "pow2 (e + 53) = g * 2 ^ 53" unfolding g_def pow2_add by (simp add: pow2_def)
  then have "\<bar>x\<bar> < g * 2 ^ 53" using lt by simp
  then have "\<bar>x / g\<bar> < 2 ^ 53" using g by (simp add: pos_divide_less_eq mult.commute)
  then have "x / g < 2 ^ 53" "- (2 ^ 53) \<le> x / g" by linarith+
  then have "x / g < of_int (2 ^ 53)" "of_int (- (2 ^ 53)) \<le> x / g" by simp_all
  then have "\<lfloor>x / g\<rfloor> < 2 ^ 53" "- (2 ^ 53) \<le> \<lfloor>x / g\<rfloor>"
    unfolding floor_less_iff le_floor_iff by simp_all
  then have m: "\<bar>roundEven (x / g)\<bar> \<le> 2 ^ 53"
    using roundEven_cases[of "x / g"] by linarith
  have "- 1074 \<le> e" by (simp add: e_def)
  with m show ?thesis unfolding roundDouble_grid[OF False] doubles_def e_def[symmetric] g_def[symmetric]
    using g_def by blast
qed


lemma roundDouble_nearest:
  assumes "z \<in> doubles"
  shows "\<bar>roundDouble x - x\<bar> \<le> \<bar>z - x\<bar>"
proof (cases "x = 0")
  case True
  then show ?thesis by (simp add: roundDouble_zero)
next
  case False
  define e where "e = max (binade x) (- 1022) - 52"
  have near: "\<bar>roundDouble x - x\<bar> \<le> \<bar>of_int k * pow2 e - x\<bar>" for k
    unfolding e_def by (rule roundDouble_nearest_grid[OF False])
  from assms obtain m ez where z: "z = of_int m * pow2 ez" and m: "\<bar>m\<bar> \<le> 2 ^ 53" and ez: "- 1074 \<le> ez"
    unfolding doubles_def by blast
  show ?thesis
  proof (cases "e \<le> ez")
    case True
    have "pow2 ez = pow2 (ez - e) * pow2 e" using pow2_add[of "ez - e" e] by simp
    also have "pow2 (ez - e) = of_int (2 ^ nat (ez - e))" using True by (intro pow2_nat) simp
    finally have "z = of_int (m * 2 ^ nat (ez - e)) * pow2 e" unfolding z by simp
    then show ?thesis using near[of "m * 2 ^ nat (ez - e)"] by simp
  next
    case False
    then have b: "- 1022 < binade x" "e = binade x - 52" using ez by (simp_all add: e_def)
    have "\<bar>z\<bar> = \<bar>of_int m\<bar> * pow2 ez" unfolding z using pow2_pos[of ez] by (simp add: abs_mult)
    also have "\<dots> \<le> 2 ^ 53 * pow2 ez"
    proof (rule mult_right_mono)
      have "\<bar>of_int m :: real\<bar> = of_int \<bar>m\<bar>" by simp
      also have "\<dots> \<le> of_int (2 ^ 53)" using m by (simp only: of_int_le_iff)
      finally show "\<bar>of_int m :: real\<bar> \<le> 2 ^ 53" by simp
      show "0 \<le> pow2 ez" using pow2_pos[of ez] by simp
    qed
    also have "\<dots> = pow2 (53 + ez)" unfolding pow2_add by (simp add: pow2_def)
    also have "\<dots> \<le> pow2 (binade x)" by (rule pow2_mono) (use False b in simp)
    finally have zb: "\<bar>z\<bar> \<le> pow2 (binade x)" .
    have xb: "pow2 (binade x) \<le> \<bar>x\<bar>" by (rule binade_bounds(1)[OF \<open>x \<noteq> 0\<close>])
    have w: "pow2 (binade x) = of_int (2 ^ 52) * pow2 e"
    proof -
      have "pow2 (binade x) = pow2 (52 + e)" by (simp add: b)
      also have "\<dots> = pow2 52 * pow2 e" by (rule pow2_add)
      finally show ?thesis by (simp add: pow2_def)
    qed
    show ?thesis
    proof (cases "0 < x")
      case True
      have "\<bar>roundDouble x - x\<bar> \<le> \<bar>pow2 (binade x) - x\<bar>"
        using near[of "2 ^ 52"] unfolding w .
      then show ?thesis using zb xb True by linarith
    next
      case False
      have "\<bar>roundDouble x - x\<bar> \<le> \<bar>of_int (- (2 ^ 52)) * pow2 e - x\<bar>"
        by (rule near)
      also have "of_int (- (2 ^ 52)) * pow2 e = - pow2 (binade x)" unfolding w by simp
      finally show ?thesis using zb xb False by linarith
    qed
  qed
qed

lemma doubles_fixed: "z \<in> doubles \<longleftrightarrow> roundDouble z = z"
proof
  assume "z \<in> doubles"
  then have "\<bar>roundDouble z - z\<bar> \<le> \<bar>z - z\<bar>" by (rule roundDouble_nearest)
  then show "roundDouble z = z" by simp
next
  assume "roundDouble z = z"
  then show "z \<in> doubles" using roundDouble_doubles[of z] by simp
qed

lemma roundDouble_idem: "roundDouble (roundDouble x) = roundDouble x"
  using roundDouble_doubles[of x] by (simp add: doubles_fixed)

lemma roundDouble_lower:
  assumes "roundDouble a = a" "a \<le> x"
  shows "a \<le> roundDouble x"
proof -
  have "a \<in> doubles" using assms(1) by (simp add: doubles_fixed)
  then have "\<bar>roundDouble x - x\<bar> \<le> \<bar>a - x\<bar>" by (rule roundDouble_nearest)
  then show ?thesis using assms(2) by linarith
qed

lemma roundDouble_upper:
  assumes "roundDouble b = b" "x \<le> b"
  shows "roundDouble x \<le> b"
proof -
  have "b \<in> doubles" using assms(1) by (simp add: doubles_fixed)
  then have "\<bar>roundDouble x - x\<bar> \<le> \<bar>b - x\<bar>" by (rule roundDouble_nearest)
  then show ?thesis using assms(2) by linarith
qed

section \<open>The step evaluated on sample values\<close>

lemma lerp_t_value: "lerp_t = 7205759403792794 / 2 ^ 56"
proof -
  have "roundDouble (1 / 10) = of_int (roundEven ((1 / 10) / pow2 (- 4 - 52))) * pow2 (- 4 - 52)"
    by (rule roundDouble_in_binade) (simp_all add: pow2_def)
  moreover have "roundEven ((1 / 10) / pow2 (- 4 - 52)) = 7205759403792794"
    by (rule roundEven_up) (simp_all add: pow2_def)
  ultimately show ?thesis by (simp add: lerp_t_def pow2_def)
qed


lemma stall_difference: "roundDouble (50 - (50 - 1 / 2 ^ 45)) = 1 / 2 ^ 45"
proof -
  have "roundDouble (1 / 2 ^ 45) = of_int (roundEven ((1 / 2 ^ 45) / pow2 (- 45 - 52))) * pow2 (- 45 - 52)"
    by (rule roundDouble_in_binade) (simp_all add: pow2_def)
  moreover have "roundEven ((1 / 2 ^ 45) / pow2 (- 45 - 52)) = 2 ^ 52"
    by (rule roundEven_eq) (simp_all add: pow2_def)
  ultimately show ?thesis by (simp add: pow2_def)
qed

lemma stall_product: "roundDouble (1 / 2 ^ 45 * lerp_t) = 7205759403792794 / 2 ^ 101"
proof -
  have x: "1 / 2 ^ 45 * lerp_t = 7205759403792794 / 2 ^ 101"
    by (simp add: lerp_t_value)
  have "roundDouble (7205759403792794 / 2 ^ 101)
      = of_int (roundEven ((7205759403792794 / 2 ^ 101) / pow2 (- 49 - 52))) * pow2 (- 49 - 52)"
    by (rule roundDouble_in_binade) (simp_all add: pow2_def)
  moreover have "roundEven ((7205759403792794 / 2 ^ 101) / pow2 (- 49 - 52)) = 7205759403792794"
    by (rule roundEven_eq) (simp_all add: pow2_def)
  ultimately show ?thesis unfolding x by (simp add: pow2_def)
qed

lemma stall_sum: "roundDouble (50 - 1 / 2 ^ 45 + 7205759403792794 / 2 ^ 101) = 50 - 1 / 2 ^ 45"
proof -
  have "roundDouble (50 - 1 / 2 ^ 45 + 7205759403792794 / 2 ^ 101)
      = of_int (roundEven ((50 - 1 / 2 ^ 45 + 7205759403792794 / 2 ^ 101) / pow2 (5 - 52))) * pow2 (5 - 52)"
    by (rule roundDouble_in_binade) (simp_all add: pow2_def)
  moreover have "roundEven ((50 - 1 / 2 ^ 45 + 7205759403792794 / 2 ^ 101) / pow2 (5 - 52)) = 7036874417766396"
    by (rule roundEven_eq) (simp_all add: pow2_def)
  ultimately show ?thesis by (simp add: pow2_def)
qed

lemma lerp_stalls: "lerp (50 - 1 / 2 ^ 45) 50 = 50 - 1 / 2 ^ 45"
  unfolding lerp_def stall_difference stall_product by (rule stall_sum)

lemma doubles_50:
  "roundDouble 50 = 50" "roundDouble (50 - 1 / 2 ^ 45) = 50 - 1 / 2 ^ 45"
proof -
  have "roundDouble 50 = of_int (roundEven (50 / pow2 (5 - 52))) * pow2 (5 - 52)"
    by (rule roundDouble_in_binade) (simp_all add: pow2_def)
  moreover have "roundEven (50 / pow2 (5 - 52)) = 7036874417766400"
    by (rule roundEven_eq) (simp_all add: pow2_def)
  ultimately show "roundDouble 50 = 50" by (simp add: pow2_def)
  have "roundDouble (50 - 1 / 2 ^ 45)
      = of_int (roundEven ((50 - 1 / 2 ^ 45) / pow2 (5 - 52))) * pow2 (5 - 52)"
    by (rule roundDouble_in_binade) (simp_all add: pow2_def)
  moreover have "roundEven ((50 - 1 / 2 ^ 45) / pow2 (5 - 52)) = 7036874417766396"
    by (rule roundEven_eq) (simp_all add: pow2_def)
  ultimately show "roundDouble (50 - 1 / 2 ^ 45) = 50 - 1 / 2 ^ 45" by (simp add: pow2_def)
qed

section \<open>The interpolation step on doubles\<close>

lemma lerp_t_bounds: "0 < lerp_t" "lerp_t \<le> 11 / 100" "lerp_t - 1 / 10 = 1 / (10 * 2 ^ 54)"
  by (simp_all add: lerp_t_value)

lemma zero_double: "0 \<in> doubles"
  by (simp add: doubles_fixed roundDouble_zero)

lemma roundDouble_nonneg:
  assumes "0 \<le> x"
  shows "0 \<le> roundDouble x" "roundDouble x \<le> 2 * x"
proof -
  have "\<bar>roundDouble x - x\<bar> \<le> \<bar>0 - x\<bar>" by (rule roundDouble_nearest[OF zero_double])
  then show "0 \<le> roundDouble x" "roundDouble x \<le> 2 * x" using assms by linarith+
qed

lemma roundDouble_nonpos:
  assumes "x \<le> 0"
  shows "2 * x \<le> roundDouble x" "roundDouble x \<le> 0"
proof -
  have "\<bar>roundDouble x - x\<bar> \<le> \<bar>0 - x\<bar>" by (rule roundDouble_nearest[OF zero_double])
  then show "2 * x \<le> roundDouble x" "roundDouble x \<le> 0" using assms by linarith+
qed

lemma lerp_up:
  assumes "roundDouble a = a" "a < b"
  shows "a \<le> lerp a b" "lerp a b < b"
proof -
  define d where "d = roundDouble (b - a)"
  define p where "p = roundDouble (d * lerp_t)"
  have l: "lerp a b = roundDouble (a + p)" by (simp add: lerp_def d_def p_def)
  have d: "0 \<le> d" "d \<le> 2 * (b - a)"
    unfolding d_def using roundDouble_nonneg[of "b - a"] assms(2) by simp_all
  have dt0: "0 \<le> d * lerp_t" using d(1) lerp_t_bounds(1) by simp
  have "d * lerp_t \<le> d * (11 / 100)" using d(1) lerp_t_bounds(2) by (rule mult_left_mono[rotated])
  then have dt: "d * lerp_t \<le> 22 / 100 * (b - a)" using d(2) by simp
  have p: "0 \<le> p" "p \<le> 44 / 100 * (b - a)"
    unfolding p_def using roundDouble_nonneg[OF dt0] dt by simp_all
  show "a \<le> lerp a b" unfolding l using assms(1) p(1) by (intro roundDouble_lower) simp_all
  have "a \<in> doubles" using assms(1) by (simp add: doubles_fixed)
  then have "\<bar>roundDouble (a + p) - (a + p)\<bar> \<le> \<bar>a - (a + p)\<bar>" by (rule roundDouble_nearest)
  then have "roundDouble (a + p) \<le> a + 2 * p" using p(1) by simp
  then show "lerp a b < b" unfolding l using p assms(2) by argo
qed

lemma lerp_down:
  assumes "roundDouble a = a" "b < a"
  shows "b < lerp a b" "lerp a b \<le> a"
proof -
  define d where "d = roundDouble (b - a)"
  define p where "p = roundDouble (d * lerp_t)"
  have l: "lerp a b = roundDouble (a + p)" by (simp add: lerp_def d_def p_def)
  have d: "d \<le> 0" "2 * (b - a) \<le> d"
    unfolding d_def using roundDouble_nonpos[of "b - a"] assms(2) by simp_all
  have dt0: "d * lerp_t \<le> 0" using d(1) lerp_t_bounds(1) by (simp add: mult_le_0_iff)
  have "(- d) * lerp_t \<le> (- d) * (11 / 100)"
    using lerp_t_bounds(2) by (rule mult_left_mono) (use d(1) in simp)
  then have dt: "22 / 100 * (b - a) \<le> d * lerp_t" using d(2) by simp
  have p: "p \<le> 0" "44 / 100 * (b - a) \<le> p"
    unfolding p_def using roundDouble_nonpos[OF dt0] dt by simp_all
  show "lerp a b \<le> a" unfolding l using assms(1) p(1) by (intro roundDouble_upper) simp_all
  have "a \<in> doubles" using assms(1) by (simp add: doubles_fixed)
  then have "\<bar>roundDouble (a + p) - (a + p)\<bar> \<le> \<bar>a - (a + p)\<bar>" by (rule roundDouble_nearest)
  then have "a + 2 * p \<le> roundDouble (a + p)" using p(1) by simp
  then show "b < lerp a b" unfolding l using p assms(2) by argo
qed

lemma lerp_same:
  assumes "roundDouble b = b"
  shows "lerp b b = b"
  using assms by (simp add: lerp_def roundDouble_zero)

lemma lerp_is_double: "roundDouble (lerp a b) = lerp a b"
  unfolding lerp_def by (rule roundDouble_idem)

lemma lerp_accuracy:
  "\<bar>lerp a b - (a + (b - a) / 10)\<bar> \<le> \<bar>a\<bar> / 2 ^ 53 + \<bar>b - a\<bar> / 2 ^ 54 + 3 / 2 ^ 1075"
proof -
  define d where "d = roundDouble (b - a)"
  define p where "p = roundDouble (d * lerp_t)"
  define s where "s = roundDouble (a + p)"
  define e1 where "e1 = d - (b - a)"
  define e2 where "e2 = p - d * lerp_t"
  define e3 where "e3 = s - (a + p)"
  define A where "A = \<bar>a\<bar>"
  define D where "D = \<bar>b - a\<bar>"
  define E1 where "E1 = \<bar>e1\<bar>"
  define E2 where "E2 = \<bar>e2\<bar>"
  define E3 where "E3 = \<bar>e3\<bar>"
  define Dt where "Dt = \<bar>d * lerp_t\<bar>"
  define P where "P = \<bar>p\<bar>"
  have l: "lerp a b = s" by (simp add: lerp_def d_def p_def s_def)
  have 1: "E1 \<le> D / 2 ^ 53 + 1 / 2 ^ 1075"
    unfolding E1_def e1_def d_def D_def by (rule roundDouble_relative)
  have 2: "E2 \<le> Dt / 2 ^ 53 + 1 / 2 ^ 1075"
    unfolding E2_def e2_def p_def Dt_def by (rule roundDouble_relative)
  have "E3 \<le> \<bar>a + p\<bar> / 2 ^ 53 + 1 / 2 ^ 1075"
    unfolding E3_def e3_def s_def by (rule roundDouble_relative)
  moreover have "\<bar>a + p\<bar> / 2 ^ 53 \<le> (A + P) / 2 ^ 53"
    unfolding A_def P_def by (intro divide_right_mono) simp_all
  ultimately have 3: "E3 \<le> (A + P) / 2 ^ 53 + 1 / 2 ^ 1075" by linarith
  define Da where "Da = \<bar>d\<bar>"
  have "Da \<le> D + E1" unfolding Da_def D_def E1_def e1_def by linarith
  moreover have "Dt = Da * lerp_t" unfolding Dt_def Da_def using lerp_t_bounds(1) by (simp add: abs_mult)
  moreover have "Da * lerp_t \<le> Da * (11 / 100)"
    using lerp_t_bounds(2) by (rule mult_left_mono) (simp add: Da_def)
  ultimately have 4: "Dt \<le> 11 / 100 * (D + E1)" by argo
  have 5: "P \<le> Dt + E2" unfolding P_def Dt_def E2_def e2_def by linarith
  have "\<bar>e1 * lerp_t\<bar> = E1 * lerp_t" unfolding E1_def using lerp_t_bounds(1) by (simp add: abs_mult)
  moreover have "E1 * lerp_t \<le> E1 * (11 / 100)"
    using lerp_t_bounds(2) by (rule mult_left_mono) (simp add: E1_def)
  ultimately have 6: "\<bar>e1 * lerp_t\<bar> \<le> 11 / 100 * E1" by linarith
  have 7: "\<bar>(b - a) * (lerp_t - 1 / 10)\<bar> = D / (10 * 2 ^ 54)"
    unfolding lerp_t_bounds(3) D_def by (simp add: abs_mult)
  have "s - (a + (b - a) / 10) = e3 + e2 + e1 * lerp_t + (b - a) * (lerp_t - 1 / 10)"
    unfolding e1_def e2_def e3_def by (simp add: algebra_simps)
  then have "\<bar>s - (a + (b - a) / 10)\<bar> \<le> E3 + E2 + \<bar>e1 * lerp_t\<bar> + \<bar>(b - a) * (lerp_t - 1 / 10)\<bar>"
    unfolding E3_def E2_def by linarith
  then have 8: "\<bar>s - (a + (b - a) / 10)\<bar> \<le> E3 + E2 + 11 / 100 * E1 + D / (10 * 2 ^ 54)"
    using 6 7 by linarith
  have nn: "0 \<le> A" "0 \<le> D" "0 \<le> E1" "0 \<le> E2" "0 \<le> E3" "0 \<le> Dt" "0 \<le> P"
    by (simp_all add: A_def D_def E1_def E2_def E3_def Dt_def P_def)
  have "\<bar>s - (a + (b - a) / 10)\<bar> \<le> A / 2 ^ 53 + D / 2 ^ 54 + 3 / 2 ^ 1075"
    using 1 2 3 4 5 8 nn apply simp apply argo done
  then show ?thesis unfolding l A_def D_def .
qed


lemma step_numeric:
  assumes "f \<in> set numericFields"
  shows "f (interpolatorStep current target) = lerp (f current) (f target)"
proof -
  from assms consider "f = horizontalShift" | "f = verticalShift" | "f = scatterIntensity" | "f = tileSize"
    by (auto simp: numericFields_def)
  then show ?thesis
    by cases (simp_all add: interpolatorStep_def)
qed

lemma interpolate_Suc:
  "interpolate (Suc n) current target = interpolatorStep (interpolate n current target) target"
proof (induction n arbitrary: current)
  case 0
  show ?case by simp
next
  case (Suc n)
  show ?case using Suc.IH[of "interpolatorStep current target"] by simp
qed

lemma field_Suc:
  assumes "f \<in> set numericFields"
  shows "f (interpolate (Suc n) current target) = lerp (f (interpolate n current target)) (f target)"
  unfolding interpolate_Suc by (rule step_numeric[OF assms])

lemma representable_field:
  assumes "representable settings" "f \<in> set numericFields"
  shows "roundDouble (f settings) = f settings" "\<bar>f settings\<bar> \<le> 2 ^ 1022"
  using assms by (simp_all add: representable_def list_all_iff)

lemma lerp_between:
  assumes "roundDouble a = a" "roundDouble b = b"
  shows "\<bar>lerp a b\<bar> \<le> max \<bar>a\<bar> \<bar>b\<bar>"
proof -
  consider "a < b" | "b < a" | "a = b" by linarith
  then show ?thesis
  proof cases
    case 1
    then show ?thesis using lerp_up[OF assms(1) 1] by linarith
  next
    case 2
    then show ?thesis using lerp_down[OF assms(1) 2] by linarith
  next
    case 3
    then show ?thesis using lerp_same[OF assms(2)] by simp
  qed
qed

lemma step_representable:
  assumes "representable current" "representable target"
  shows "representable (interpolatorStep current target)"
proof -
  have "roundDouble (f (interpolatorStep current target)) = f (interpolatorStep current target)
      \<and> \<bar>f (interpolatorStep current target)\<bar> \<le> 2 ^ 1022" if f: "f \<in> set numericFields" for f
  proof -
    have "\<bar>lerp (f current) (f target)\<bar> \<le> max \<bar>f current\<bar> \<bar>f target\<bar>"
      using representable_field(1)[OF assms(1) f] representable_field(1)[OF assms(2) f]
      by (rule lerp_between)
    then have "\<bar>lerp (f current) (f target)\<bar> \<le> 2 ^ 1022"
      using representable_field(2)[OF assms(1) f] representable_field(2)[OF assms(2) f] by linarith
    then show ?thesis unfolding step_numeric[OF f] lerp_is_double by simp
  qed
  then show ?thesis unfolding representable_def list_all_iff by blast
qed

lemma run_invariant:
  assumes f: "f \<in> set numericFields"
    and c: "roundDouble (f current) = f current" and t: "roundDouble (f target) = f target"
  shows "roundDouble (f (interpolate n current target)) = f (interpolate n current target)
     \<and> (f current < f target \<longrightarrow>
          f current \<le> f (interpolate n current target) \<and> f (interpolate n current target) < f target)
     \<and> (f target < f current \<longrightarrow>
          f target < f (interpolate n current target) \<and> f (interpolate n current target) \<le> f current)
     \<and> (f current = f target \<longrightarrow> f (interpolate n current target) = f target)"
proof (induction n)
  case 0
  show ?case using c by simp
next
  case (Suc n)
  define a where "a = f (interpolate n current target)"
  have s: "f (interpolate (Suc n) current target) = lerp a (f target)"
    unfolding a_def by (rule field_Suc[OF f])
  have a: "roundDouble a = a" using Suc.IH by (simp add: a_def)
  have 1: "roundDouble (lerp a (f target)) = lerp a (f target)" by (rule lerp_is_double)
  have 2: "f current \<le> lerp a (f target) \<and> lerp a (f target) < f target" if "f current < f target"
  proof -
    have "f current \<le> a" "a < f target" using Suc.IH that by (simp_all add: a_def)
    then show ?thesis using lerp_up[OF a, of "f target"] by linarith
  qed
  have 3: "f target < lerp a (f target) \<and> lerp a (f target) \<le> f current" if "f target < f current"
  proof -
    have "f target < a" "a \<le> f current" using Suc.IH that by (simp_all add: a_def)
    then show ?thesis using lerp_down[OF a, of "f target"] by linarith
  qed
  have 4: "lerp a (f target) = f target" if "f current = f target"
  proof -
    have "a = f target" using Suc.IH that by (simp add: a_def)
    then show ?thesis using lerp_same[OF t] by simp
  qed
  show ?case unfolding s using 1 2 3 4 by blast
qed

lemma stall_forever:
  assumes f: "f \<in> set numericFields"
    and "f (interpolate (Suc n) current target) = f (interpolate n current target)"
  shows "f (interpolate (n + k) current target) = f (interpolate n current target)"
proof (induction k)
  case 0
  show ?case by simp
next
  case (Suc k)
  have "f (interpolate (n + Suc k) current target) = lerp (f (interpolate (n + k) current target)) (f target)"
    using field_Suc[OF f, of "n + k" current target] by simp
  also have "\<dots> = lerp (f (interpolate n current target)) (f target)" unfolding Suc.IH ..
  also have "\<dots> = f (interpolate (Suc n) current target)" by (rule field_Suc[OF f, symmetric])
  finally show ?case using assms(2) by simp
qed

lemma step_distance:
  assumes a: "roundDouble a = a" and b: "roundDouble b = b"
  shows "\<bar>lerp a b - b\<bar> \<le> \<bar>a - b\<bar>"
    and "lerp a b \<noteq> a \<Longrightarrow> \<bar>lerp a b - b\<bar> < \<bar>a - b\<bar>"
proof -
  consider "a < b" | "b < a" | "a = b" by linarith
  then have "\<bar>lerp a b - b\<bar> \<le> \<bar>a - b\<bar> \<and> (lerp a b \<noteq> a \<longrightarrow> \<bar>lerp a b - b\<bar> < \<bar>a - b\<bar>)"
  proof cases
    case 1
    then show ?thesis using lerp_up[OF a 1] by linarith
  next
    case 2
    then show ?thesis using lerp_down[OF a 2] by linarith
  next
    case 3
    then show ?thesis using lerp_same[OF b] by simp
  qed
  then show "\<bar>lerp a b - b\<bar> \<le> \<bar>a - b\<bar>"
    and "lerp a b \<noteq> a \<Longrightarrow> \<bar>lerp a b - b\<bar> < \<bar>a - b\<bar>" by simp_all
qed

lemma step_rate:
  "\<bar>(lerp a b - b) - 9 / 10 * (a - b)\<bar> \<le> \<bar>a\<bar> / 2 ^ 53 + \<bar>a - b\<bar> / 2 ^ 54 + 3 / 2 ^ 1075"
proof -
  have "(lerp a b - b) - 9 / 10 * (a - b) = lerp a b - (a + (b - a) / 10)" by argo
  moreover have "\<bar>a - b\<bar> = \<bar>b - a\<bar>" by simp
  ultimately show ?thesis using lerp_accuracy[of a b] by simp
qed

lemma step_progress:
  assumes "\<bar>a\<bar> / 2 ^ 49 + 1 / 2 ^ 1069 \<le> \<bar>a - b\<bar>"
  shows "\<bar>lerp a b - b\<bar> < \<bar>a - b\<bar>"
proof -
  define A where "A = \<bar>a\<bar>"
  define D where "D = \<bar>a - b\<bar>"
  define L where "L = \<bar>lerp a b - b\<bar>"
  define R where "R = \<bar>(lerp a b - b) - 9 / 10 * (a - b)\<bar>"
  have "L \<le> 9 / 10 * D + R" unfolding L_def D_def R_def by argo
  moreover have "R \<le> A / 2 ^ 53 + D / 2 ^ 54 + 3 / 2 ^ 1075"
    unfolding R_def A_def D_def by (rule step_rate)
  moreover have "A / 2 ^ 49 + 1 / 2 ^ 1069 \<le> D" using assms by (simp add: A_def D_def)
  moreover have "0 \<le> A" by (simp add: A_def)
  ultimately have "L < D" by simp
  then show ?thesis by (simp add: L_def D_def)
qed

section \<open>The step on the sample settings\<close>

lemma double_5: "roundDouble 5 = 5"
proof -
  have "roundDouble 5 = of_int (roundEven (5 / pow2 (2 - 52))) * pow2 (2 - 52)"
    by (rule roundDouble_in_binade) (simp_all add: pow2_def)
  moreover have "roundEven (5 / pow2 (2 - 52)) = 5629499534213120"
    by (rule roundEven_eq) (simp_all add: pow2_def)
  ultimately show ?thesis by (simp add: pow2_def)
qed

lemma first_product: "roundDouble (50 * lerp_t) = 5"
proof -
  have x: "50 * lerp_t = 360287970189639700 / 2 ^ 56"
    by (simp add: lerp_t_value)
  have "roundDouble (360287970189639700 / 2 ^ 56)
      = of_int (roundEven ((360287970189639700 / 2 ^ 56) / pow2 (2 - 52))) * pow2 (2 - 52)"
    by (rule roundDouble_in_binade) (simp_all add: pow2_def)
  moreover have "roundEven ((360287970189639700 / 2 ^ 56) / pow2 (2 - 52)) = 5629499534213120"
    by (rule roundEven_eq) (simp_all add: pow2_def)
  ultimately show ?thesis unfolding x by (simp add: pow2_def)
qed

lemma lerp_first: "lerp 0 50 = 5"
  by (simp add: lerp_def doubles_50(1) first_product double_5)

lemma representable_samples:
  "representable scenario" "representable (zeroed scenario)"
  by (simp_all add: representable_def numericFields_def scenario_def zeroed_def
      roundDouble_zero doubles_50)

lemma representable_nearly: "representable nearly"
proof -
  have h: "horizontalShift nearly = 50 - 1 / 2 ^ 45" "verticalShift nearly = 0"
    "scatterIntensity nearly = 0" "tileSize nearly = 50"
    by (simp_all add: nearly_def scenario_def)
  have b: "\<bar>50 - 1 / 2 ^ 45 :: real\<bar> \<le> 2 ^ 1022" by simp
  show ?thesis unfolding representable_def numericFields_def list.pred_inject h
    by (intro conjI doubles_50 roundDouble_zero b) simp_all
qed

lemma interpolate_representable:
  assumes "representable current" "representable target"
  shows "representable (interpolate n current target)"
proof (induction n)
  case 0
  show ?case using assms(1) by simp
next
  case (Suc n)
  show ?case unfolding interpolate_Suc using Suc.IH assms(2) by (rule step_representable)
qed

section \<open>One step of the interpolator\<close>

text \<open>
  Claim C6 reads: one step of the interpolator updates each of \<open>horizontalShift\<close>,
  \<open>verticalShift\<close>, \<open>scatterIntensity\<close> and \<open>tileSize\<close> to exactly
  \<open>current + 0.1 * (target - current)\<close>, copies \<open>pattern\<close> and \<open>seed\<close> from the
  target and modifies no other field. The step computes on doubles and stores the rounded
  value, which need not be that number: with the horizontal shift at \<open>50 - 2^(-45)\<close> and
  the target at 50 the number \<open>current + 0.1 * (target - current)\<close> lies a tenth of the
  way to the target, and the step stores the current value again.
\<close>

theorem interpolator_step_inexact_counterexample:
  "representable nearly \<and> representable scenario
   \<and> horizontalShift (interpolatorStep nearly scenario) = horizontalShift nearly
   \<and> horizontalShift (interpolatorStep nearly scenario)
       \<noteq> horizontalShift nearly + 0.1 * (horizontalShift scenario - horizontalShift nearly)"
proof -
  have h: "horizontalShift nearly = 50 - 1 / 2 ^ 45" "horizontalShift scenario = 50"
    by (simp_all add: nearly_def scenario_def)
  have "horizontalShift (interpolatorStep nearly scenario)
      = lerp (horizontalShift nearly) (horizontalShift scenario)"
    by (simp add: interpolatorStep_def)
  then have v: "horizontalShift (interpolatorStep nearly scenario) = 50 - 1 / 2 ^ 45"
    unfolding h by (simp only: lerp_stalls)
  have "(50 - 1 / 2 ^ 45 :: real) \<noteq> 50 - 1 / 2 ^ 45 + 0.1 * (50 - (50 - 1 / 2 ^ 45))" by simp
  then show ?thesis unfolding v h using representable_nearly representable_samples(1) by simp
qed

text \<open>
  Claim C6, amended. For current and target settings whose four numeric fields hold
  doubles of magnitude at most \<open>2 ^ 1022\<close>, one step sets each of \<open>horizontalShift\<close>,
  \<open>verticalShift\<close>, \<open>scatterIntensity\<close> and \<open>tileSize\<close> to the value of
  \<open>current + (target - current) * 0.1\<close> in double arithmetic: \<open>0.1\<close> is the nearest
  double, and the difference, the product and the sum are each rounded to the nearest
  double. That value is within
  \<open>|current| / 2^53 + |target - current| / 2^54 + 3 / 2^1075\<close> of the number
  \<open>current + 0.1 * (target - current)\<close>. The step copies \<open>pattern\<close> and \<open>seed\<close> from
  the target, leaves the remaining field, \<open>opacity\<close>, as it is in the current settings,
  and yields settings whose numeric fields are doubles of magnitude at most \<open>2 ^ 1022\<close>
  again.
\<close>

theorem interpolator_step_rounded:
  assumes "representable current" "representable target"
  shows "horizontalShift (interpolatorStep current target)
       = roundDouble (horizontalShift current
           + roundDouble (roundDouble (horizontalShift target - horizontalShift current) * roundDouble 0.1))
     \<and> verticalShift (interpolatorStep current target)
       = roundDouble (verticalShift current
           + roundDouble (roundDouble (verticalShift target - verticalShift current) * roundDouble 0.1))
     \<and> scatterIntensity (interpolatorStep current target)
       = roundDouble (scatterIntensity current
           + roundDouble (roundDouble (scatterIntensity target - scatterIntensity current) * roundDouble 0.1))
     \<and> tileSize (interpolatorStep current target)
       = roundDouble (tileSize current
           + roundDouble (roundDouble (tileSize target - tileSize current) * roundDouble 0.1))
     \<and> (\<forall>f \<in> set numericFields.
          \<bar>f (interpolatorStep current target) - (f current + 0.1 * (f target - f current))\<bar>
            \<le> \<bar>f current\<bar> / 2 ^ 53 + \<bar>f target - f current\<bar> / 2 ^ 54 + 3 / 2 ^ 1075)
     \<and> pattern (interpolatorStep current target) = pattern target
     \<and> seed (interpolatorStep current target) = seed target
     \<and> opacity (interpolatorStep current target) = opacity current
     \<and> representable (interpolatorStep current target)"
proof -
  have fields: "horizontalShift (interpolatorStep current target)
       = roundDouble (horizontalShift current
           + roundDouble (roundDouble (horizontalShift target - horizontalShift current) * roundDouble 0.1))"
    "verticalShift (interpolatorStep current target)
       = roundDouble (verticalShift current
           + roundDouble (roundDouble (verticalShift target - verticalShift current) * roundDouble 0.1))"
    "scatterIntensity (interpolatorStep current target)
       = roundDouble (scatterIntensity current
           + roundDouble (roundDouble (scatterIntensity target - scatterIntensity current) * roundDouble 0.1))"
    "tileSize (interpolatorStep current target)
       = roundDouble (tileSize current
           + roundDouble (roundDouble (tileSize target - tileSize current) * roundDouble 0.1))"
    by (simp_all add: interpolatorStep_def lerp_def lerp_t_def)
  have acc: "\<bar>f (interpolatorStep current target) - (f current + 0.1 * (f target - f current))\<bar>
            \<le> \<bar>f current\<bar> / 2 ^ 53 + \<bar>f target - f current\<bar> / 2 ^ 54 + 3 / 2 ^ 1075"
    if "f \<in> set numericFields" for f
    unfolding step_numeric[OF that] using lerp_accuracy[of "f current" "f target"] by simp
  have rest: "pattern (interpolatorStep current target) = pattern target"
    "seed (interpolatorStep current target) = seed target"
    "opacity (interpolatorStep current target) = opacity current"
    by (simp_all add: interpolatorStep_def)
  have rep: "representable (interpolatorStep current target)"
    using assms by (rule step_representable)
  show ?thesis using fields acc rest rep by blast
qed

theorem interpolator_step_rounded_witness:
  "representable (zeroed scenario) \<and> representable scenario
   \<and> horizontalShift (zeroed scenario) = 0 \<and> horizontalShift scenario = 50
   \<and> horizontalShift (interpolatorStep (zeroed scenario) scenario) = 5
   \<and> pattern (interpolatorStep (zeroed scenario) scenario) = Plain
   \<and> opacity (interpolatorStep (zeroed scenario) scenario) = 100
   \<and> representable (interpolatorStep (zeroed scenario) scenario)"
proof -
  have v: "horizontalShift (zeroed scenario) = 0" "horizontalShift scenario = 50"
    "pattern scenario = Plain" "opacity (zeroed scenario) = 100"
    by (simp_all add: zeroed_def scenario_def)
  have e: "roundDouble (0 + roundDouble (roundDouble (50 - 0) * roundDouble 0.1)) = 5"
    using lerp_first unfolding lerp_def lerp_t_def .
  from interpolator_step_rounded[OF representable_samples(2) representable_samples(1)]
  have "horizontalShift (interpolatorStep (zeroed scenario) scenario) = 5"
    and "pattern (interpolatorStep (zeroed scenario) scenario) = Plain"
    and "opacity (interpolatorStep (zeroed scenario) scenario) = 100"
    and "representable (interpolatorStep (zeroed scenario) scenario)"
    unfolding v e by blast+
  then show ?thesis using v representable_samples by simp
qed

section \<open>Convergence of the interpolator\<close>

text \<open>
  Claim C9 reads: under repeated steps towards a fixed target every numeric field's
  distance to its target strictly decreases at every step while it is nonzero, by the
  factor 0.9, and the field neither overshoots nor reaches the target in finitely many
  steps. On doubles the step can leave a field where it is, short of the target: with
  the horizontal shift at \<open>50 - 2^(-45)\<close> (four units in the last place below 50) and the
  target at 50, both doubles, the increment \<open>(50 - current) * 0.1\<close> is less than half a
  unit in the last place and the sum rounds back to the current value. The distance stays
  \<open>2^(-45)\<close>: it is nonzero and does not decrease.
\<close>

theorem interpolation_stalls_in_doubles_counterexample:
  "roundDouble (horizontalShift nearly) = horizontalShift nearly
   \<and> roundDouble (horizontalShift scenario) = horizontalShift scenario
   \<and> horizontalShift nearly \<noteq> horizontalShift scenario
   \<and> horizontalShift (interpolatorStep nearly scenario) = horizontalShift nearly
   \<and> \<bar>horizontalShift (interpolatorStep nearly scenario) - horizontalShift scenario\<bar>
       = \<bar>horizontalShift nearly - horizontalShift scenario\<bar>"
  using lerp_stalls doubles_50
  by (simp add: nearly_def scenario_def interpolatorStep_def)

text \<open>
  Claim C9, amended. Let the numeric fields of the current and the target settings hold
  doubles of magnitude at most \<open>2 ^ 1022\<close>, and let the steps be repeated towards the
  same target. Then for each of the four numeric fields and every number \<open>n\<close> of steps
  taken so far:
  the settings reached still hold such doubles;
  a field that started below its target does not decrease in the next step and stays
  below the target, and a field that started above does not increase and stays above, so
  that the field never overshoots and, started away from the target, never equals it;
  the distance to the target does not increase in the next step, and it strictly
  decreases in every step that changes the field;
  a step that leaves the field unchanged is followed only by such steps (the field has
  come to rest);
  the distance after the step differs from 0.9 times the distance before it by at most
  \<open>|field| / 2^53 + distance / 2^54 + 3 / 2^1075\<close>;
  and the step does strictly decrease the distance whenever the distance is at least
  \<open>|field| / 2^49 + 1 / 2^1069\<close>.
\<close>

theorem interpolation_converges_in_doubles:
  assumes "f \<in> set numericFields" "representable current" "representable target"
  shows "representable (interpolate n current target)
     \<and> (f current < f target \<longrightarrow>
          f (interpolate n current target) \<le> f (interpolate (Suc n) current target)
          \<and> f (interpolate (Suc n) current target) < f target)
     \<and> (f target < f current \<longrightarrow>
          f target < f (interpolate (Suc n) current target)
          \<and> f (interpolate (Suc n) current target) \<le> f (interpolate n current target))
     \<and> (f current \<noteq> f target \<longrightarrow> f (interpolate n current target) \<noteq> f target)
     \<and> \<bar>f (interpolate (Suc n) current target) - f target\<bar>
          \<le> \<bar>f (interpolate n current target) - f target\<bar>
     \<and> (f (interpolate (Suc n) current target) \<noteq> f (interpolate n current target) \<longrightarrow>
          \<bar>f (interpolate (Suc n) current target) - f target\<bar>
            < \<bar>f (interpolate n current target) - f target\<bar>)
     \<and> (f (interpolate (Suc n) current target) = f (interpolate n current target) \<longrightarrow>
          f (interpolate (n + k) current target) = f (interpolate n current target))
     \<and> \<bar>(f (interpolate (Suc n) current target) - f target)
           - 9 / 10 * (f (interpolate n current target) - f target)\<bar>
          \<le> \<bar>f (interpolate n current target)\<bar> / 2 ^ 53
            + \<bar>f (interpolate n current target) - f target\<bar> / 2 ^ 54 + 3 / 2 ^ 1075
     \<and> (\<bar>f (interpolate n current target)\<bar> / 2 ^ 49 + 1 / 2 ^ 1069
            \<le> \<bar>f (interpolate n current target) - f target\<bar> \<longrightarrow>
          \<bar>f (interpolate (Suc n) current target) - f target\<bar>
            < \<bar>f (interpolate n current target) - f target\<bar>)"
proof -
  define a where "a = f (interpolate n current target)"
  define b where "b = f target"
  have s: "f (interpolate (Suc n) current target) = lerp a b"
    unfolding a_def b_def by (rule field_Suc[OF assms(1)])
  have c: "roundDouble (f current) = f current" and t: "roundDouble b = b"
    unfolding b_def
    using representable_field(1)[OF assms(2) assms(1)] representable_field(1)[OF assms(3) assms(1)]
    by simp_all
  have inv: "roundDouble a = a"
    "f current < b \<Longrightarrow> f current \<le> a \<and> a < b"
    "b < f current \<Longrightarrow> b < a \<and> a \<le> f current"
    "f current = b \<Longrightarrow> a = b"
    using run_invariant[OF assms(1) c, of target n] t unfolding a_def b_def by simp_all
  have 1: "representable (interpolate n current target)"
    using assms(2,3) by (rule interpolate_representable)
  have 2: "a \<le> lerp a b \<and> lerp a b < b" if "f current < b"
    using lerp_up[OF inv(1), of b] inv(2)[OF that] by simp
  have 3: "b < lerp a b \<and> lerp a b \<le> a" if "b < f current"
    using lerp_down[OF inv(1), of b] inv(3)[OF that] by simp
  have 4: "a \<noteq> b" if "f current \<noteq> b"
    using inv(2,3) that by (cases "f current < b") auto
  have 5: "\<bar>lerp a b - b\<bar> \<le> \<bar>a - b\<bar>"
    by (rule step_distance(1)[OF inv(1) t])
  have 6: "\<bar>lerp a b - b\<bar> < \<bar>a - b\<bar>" if "lerp a b \<noteq> a"
    using that by (rule step_distance(2)[OF inv(1) t])
  have 7: "f (interpolate (n + k) current target) = a" if "lerp a b = a"
  proof -
    from that have "f (interpolate (Suc n) current target) = f (interpolate n current target)"
      unfolding s a_def[symmetric] .
    then show ?thesis unfolding a_def by (rule stall_forever[OF assms(1)])
  qed
  have 8: "\<bar>(lerp a b - b) - 9 / 10 * (a - b)\<bar> \<le> \<bar>a\<bar> / 2 ^ 53 + \<bar>a - b\<bar> / 2 ^ 54 + 3 / 2 ^ 1075"
    by (rule step_rate)
  have 9: "\<bar>lerp a b - b\<bar> < \<bar>a - b\<bar>" if "\<bar>a\<bar> / 2 ^ 49 + 1 / 2 ^ 1069 \<le> \<bar>a - b\<bar>"
    using that by (rule step_progress)
  show ?thesis
    unfolding s unfolding a_def[symmetric] b_def[symmetric]
    using 1 2 3 4 5 6 7 8 9 by blast
qed

theorem interpolation_converges_in_doubles_witness:
  "horizontalShift \<in> set numericFields
   \<and> representable (zeroed scenario) \<and> representable scenario
   \<and> horizontalShift (zeroed scenario) = 0 \<and> horizontalShift scenario = 50
   \<and> horizontalShift (interpolate (Suc 0) (zeroed scenario) scenario) = 5
   \<and> horizontalShift (interpolate 0 (zeroed scenario) scenario)
        \<le> horizontalShift (interpolate (Suc 0) (zeroed scenario) scenario)
   \<and> horizontalShift (interpolate (Suc 0) (zeroed scenario) scenario) < horizontalShift scenario
   \<and> \<bar>horizontalShift (interpolate (Suc 0) (zeroed scenario) scenario) - horizontalShift scenario\<bar>
        < \<bar>horizontalShift (interpolate 0 (zeroed scenario) scenario) - horizontalShift scenario\<bar>"
proof -
  have m: "horizontalShift \<in> set numericFields" by (simp add: numericFields_def)
  have v: "horizontalShift (zeroed scenario) = 0" "horizontalShift scenario = 50"
    by (simp_all add: zeroed_def scenario_def)
  have lt: "horizontalShift (zeroed scenario) < horizontalShift scenario" unfolding v by simp
  have five: "horizontalShift (interpolate (Suc 0) (zeroed scenario) scenario) = 5"
    using lerp_first by (simp add: interpolatorStep_def zeroed_def scenario_def)
  have ne: "horizontalShift (interpolate (Suc 0) (zeroed scenario) scenario)
      \<noteq> horizontalShift (interpolate 0 (zeroed scenario) scenario)"
    unfolding five by (simp add: v)
  from interpolation_converges_in_doubles[OF m representable_samples(2) representable_samples(1),
      of 0 0] lt ne
  have "horizontalShift (interpolate 0 (zeroed scenario) scenario)
        \<le> horizontalShift (interpolate (Suc 0) (zeroed scenario) scenario)"
    and "horizontalShift (interpolate (Suc 0) (zeroed scenario) scenario) < horizontalShift scenario"
    and "\<bar>horizontalShift (interpolate (Suc 0) (zeroed scenario) scenario) - horizontalShift scenario\<bar>
        < \<bar>horizontalShift (interpolate 0 (zeroed scenario) scenario) - horizontalShift scenario\<bar>"
    by blast+
  with m v five representable_samples show ?thesis by blast
qed

end
